theory Spec2Isabelle
  imports Complex_Main
begin

section \<open>The maze generator of src/js/world/MazeGenerator.js\<close>

text \<open>
  A cell is the coordinate pair \<open>(x, y)\<close>. The source keys its hash maps with the
  string \<^verbatim>\<open>`${x},${y}`\<close>, which is injective on integer pairs, so the
  maps are modelled with the pair itself as the key.
\<close>

type_synonym cell = "int \<times> int"

record MazeGenerator =
  width :: int
  height :: int
  algorithm :: string
  maze :: "cell \<rightharpoonup> bool"
  startPos :: "cell option"
  exitPos :: "cell option"

text \<open>The constructor: an empty map, \<open>startPos\<close> and \<open>exitPos\<close> are \<open>null\<close>.\<close>

definition new_MazeGenerator :: "int \<Rightarrow> int \<Rightarrow> string \<Rightarrow> MazeGenerator" where
  "new_MazeGenerator w h alg =
     \<lparr>width = w, height = h, algorithm = alg, maze = Map.empty,
      startPos = None, exitPos = None\<rparr>"

subsection \<open>Grid queries\<close>

definition isWall :: "MazeGenerator \<Rightarrow> cell \<Rightarrow> bool" where
  "isWall m c = (maze m c = Some True)"

definition setWall :: "MazeGenerator \<Rightarrow> cell \<Rightarrow> bool \<Rightarrow> MazeGenerator" where
  "setWall m c w = m\<lparr>maze := (maze m)(c \<mapsto> w)\<rparr>"

definition isInBounds :: "MazeGenerator \<Rightarrow> cell \<Rightarrow> bool" where
  "isInBounds m c = (case c of (x, y) \<Rightarrow> x \<ge> 0 \<and> x < width m \<and> y \<ge> 0 \<and> y < height m)"

text \<open>
  The double loop \<^verbatim>\<open>for y in [0, height) for x in [0, width)\<close> visits
  the cells in row-major order.
\<close>

definition grid_cells :: "MazeGenerator \<Rightarrow> cell list" where
  "grid_cells m = concat (map (\<lambda>y. map (\<lambda>x. (x, y)) [0 .. width m - 1]) [0 .. height m - 1])"

definition directions :: "(int \<times> int) list" where
  "directions = [(0, - 1), (1, 0), (0, 1), (- 1, 0)]"

definition getPassageNeighbors :: "MazeGenerator \<Rightarrow> cell \<Rightarrow> cell list" where
  "getPassageNeighbors m c =
     (case c of (x, y) \<Rightarrow>
        filter (\<lambda>n. isInBounds m n \<and> \<not> isWall m n)
          (map (\<lambda>(dx, dy). (x + dx, y + dy)) directions))"

definition getWalledNeighbors :: "MazeGenerator \<Rightarrow> cell \<Rightarrow> cell list" where
  "getWalledNeighbors m c =
     (case c of (x, y) \<Rightarrow>
        filter (\<lambda>n. isInBounds m n \<and> isWall m n)
          (map (\<lambda>(dx, dy). (x + dx, y + dy)) directions))"

definition isDeadEnd :: "MazeGenerator \<Rightarrow> cell \<Rightarrow> bool" where
  "isDeadEnd m c = (if isWall m c then False else length (getPassageNeighbors m c) = 1)"

definition findAllDeadEnds :: "MazeGenerator \<Rightarrow> cell list" where
  "findAllDeadEnds m = filter (\<lambda>c. \<not> isWall m c \<and> isDeadEnd m c) (grid_cells m)"

subsection \<open>Braiding\<close>

text \<open>
  \<^verbatim>\<open>Math.random()\<close> is modelled by the sequence of the values it is going to
  return: a call takes the first and leaves the rest. The values are reals; nothing
  restricts them to \<open>[0, 1)\<close>, so an index computed from a draw may miss the array,
  where the source reads \<^verbatim>\<open>undefined\<close> and \<^verbatim>\<open>target.x\<close> throws.
\<close>

type_synonym rng = "nat \<Rightarrow> real"

definition Math_random :: "rng \<Rightarrow> real \<times> rng" where
  "Math_random g = (g 0, \<lambda>i. g (Suc i))"

datatype error = TypeError

text \<open>
  The body of \<^verbatim>\<open>deadEnds.forEach\<close>. The object is mutated in place, so
  the result is the state of the maze when the loop ends, with the exception that ended
  it, if any.
\<close>

fun braid_loop :: "real \<Rightarrow> cell list \<Rightarrow> rng \<Rightarrow> MazeGenerator \<Rightarrow> MazeGenerator \<times> error option" where
  "braid_loop percentage [] g m = (m, None)"
| "braid_loop percentage (cell # deadEnds) g m =
     (case Math_random g of (r, g1) \<Rightarrow>
        if r * 100 < percentage then
          (let walledNeighbors = getWalledNeighbors m cell in
           if length walledNeighbors > 0 then
             (case Math_random g1 of (r', g2) \<Rightarrow>
                (let k = \<lfloor>r' * real (length walledNeighbors)\<rfloor> in
                 if 0 \<le> k \<and> k < int (length walledNeighbors)
                 then braid_loop percentage deadEnds g2
                        (setWall m (walledNeighbors ! nat k) False)
                 else (m, Some TypeError)))
           else braid_loop percentage deadEnds g1 m)
        else braid_loop percentage deadEnds g1 m)"

definition braid :: "rng \<Rightarrow> real \<Rightarrow> MazeGenerator \<Rightarrow> MazeGenerator \<times> error option" where
  "braid g percentage m =
     (if percentage \<le> 0 then (m, None)
      else braid_loop percentage (findAllDeadEnds m) g m)"

subsection \<open>Breadth-first distances\<close>

text \<open>
  One iteration of \<^verbatim>\<open>for (const neighbor of neighbors)\<close>: \<open>d\<close> is
  \<^verbatim>\<open>current.dist\<close>, the state is the distance map and the queue.
\<close>

definition visit ::
  "nat \<Rightarrow> cell \<Rightarrow> (cell \<rightharpoonup> nat) \<times> (cell \<times> nat) list \<Rightarrow> (cell \<rightharpoonup> nat) \<times> (cell \<times> nat) list" where
  "visit d neighbor st =
     (case st of (distances, queue) \<Rightarrow>
        if distances neighbor = None
        then (distances(neighbor \<mapsto> d + 1), queue @ [(neighbor, d + 1)])
        else (distances, queue))"

definition unvisited :: "MazeGenerator \<Rightarrow> (cell \<rightharpoonup> nat) \<Rightarrow> cell set" where
  "unvisited m distances = {c. isInBounds m c \<and> distances c = None}"

function bfs_loop ::
  "MazeGenerator \<Rightarrow> (cell \<rightharpoonup> nat) \<Rightarrow> (cell \<times> nat) list \<Rightarrow> (cell \<rightharpoonup> nat)" where
  "bfs_loop m distances [] = distances"
| "bfs_loop m distances ((c, d) # queue) =
     (case fold (visit d) (getPassageNeighbors m c) (distances, queue) of
        (distances', queue') \<Rightarrow> bfs_loop m distances' queue')"
  by pat_completeness auto


definition calculateDistances :: "MazeGenerator \<Rightarrow> cell \<Rightarrow> (cell \<rightharpoonup> nat)" where
  "calculateDistances m start = bfs_loop m (Map.empty(start \<mapsto> 0)) [(start, 0)]"

subsection \<open>Start and exit\<close>

definition nearBorder :: "MazeGenerator \<Rightarrow> cell \<Rightarrow> bool" where
  "nearBorder m c =
     (case c of (x, y) \<Rightarrow> x \<le> 1 \<or> x \<ge> width m - 2 \<or> y \<le> 1 \<or> y \<ge> height m - 2)"

definition borderCells :: "MazeGenerator \<Rightarrow> cell list" where
  "borderCells m = filter (\<lambda>c. \<not> isWall m c \<and> nearBorder m c) (grid_cells m)"

text \<open>
  The search for the best pair. The state is
  \<open>(maxPathDistance, bestStart, bestExit)\<close>; \<open>pair_inner\<close> is the loop on
  \<open>j\<close>, \<open>pair_outer\<close> the loop on \<open>i\<close>.
\<close>

type_synonym best = "nat \<times> cell \<times> cell"

function pair_inner :: "cell list \<Rightarrow> (cell \<rightharpoonup> nat) \<Rightarrow> nat \<Rightarrow> nat \<Rightarrow> best \<Rightarrow> best" where
  "pair_inner bc distances i j st =
     (if j < length bc then
        pair_inner bc distances i (j + 1)
          (case st of (maxPathDistance, bestStart, bestExit) \<Rightarrow>
             (case distances (bc ! j) of
                None \<Rightarrow> st
              | Some distance \<Rightarrow>
                  if distance > maxPathDistance then (distance, bc ! i, bc ! j) else st))
      else st)"
  by pat_completeness auto
termination
  by (relation "measure (\<lambda>(bc, distances, i, j, st). length bc - j)") auto

function pair_outer :: "MazeGenerator \<Rightarrow> cell list \<Rightarrow> nat \<Rightarrow> best \<Rightarrow> best" where
  "pair_outer m bc i st =
     (if i < length bc then
        pair_outer m bc (i + 1)
          (pair_inner bc (calculateDistances m (bc ! i)) i (i + 1) st)
      else st)"
  by pat_completeness auto
termination
  by (relation "measure (\<lambda>(m, bc, i, st). length bc - i)") auto

definition setStartAndExit :: "MazeGenerator \<Rightarrow> MazeGenerator" where
  "setStartAndExit m =
     (let bc = borderCells m in
      if length bc < 2 then
        m\<lparr>startPos := Some (1, 1), exitPos := Some (width m - 2, height m - 2)\<rparr>
      else
        (case pair_outer m bc 0 (0, bc ! 0, bc ! 1) of
           (maxPathDistance, bestStart, bestExit) \<Rightarrow>
             if fst bestStart + snd bestStart < fst bestExit + snd bestExit
             then m\<lparr>startPos := Some bestStart, exitPos := Some bestExit\<rparr>
             else m\<lparr>startPos := Some bestExit, exitPos := Some bestStart\<rparr>))"

subsection \<open>Generation\<close>

text \<open>
  The carving algorithms are the classes of the rot-js library, which is not part of
  the repository. The model keeps which class \<^verbatim>\<open>generate\<close> instantiates
  and with which arguments, and takes what the library does as a parameter: \<open>create\<close>
  maps the generator and the seed given to \<^verbatim>\<open>ROT.RNG.setSeed\<close> to the
  sequence of \<open>(x, y, value)\<close> triples with which the library calls the callback.
\<close>

datatype rot_map = EllerMaze int int | IceyMaze int int int | DividedMaze int int

definition select_generator :: "string \<Rightarrow> int \<Rightarrow> int \<Rightarrow> rot_map" where
  "select_generator alg w h =
     (if alg = ''eller'' then EllerMaze w h
      else if alg = ''icey'' then IceyMaze w h 0
      else if alg = ''divided'' then DividedMaze w h
      else DividedMaze w h)"

definition generate ::
  "(rot_map \<Rightarrow> int \<Rightarrow> (int \<times> int \<times> int) list) \<Rightarrow> int \<Rightarrow> MazeGenerator \<Rightarrow> MazeGenerator" where
  "generate create seed m =
     (let m1 = m\<lparr>maze := Map.empty\<rparr>;
          m2 = fold (\<lambda>c m'. setWall m' c True) (grid_cells m1) m1;
          generator = select_generator (algorithm m2) (width m2) (height m2);
          m3 = fold (\<lambda>(x, y, v) m'. setWall m' (x, y) (v = 1)) (create generator seed) m2
      in setStartAndExit m3)"

subsection \<open>The collision system's use of the wall query (src/unnamed/part_002)\<close>

definition isCollidingWithWall :: "MazeGenerator \<Rightarrow> real \<Rightarrow> real \<Rightarrow> bool" where
  "isCollidingWithWall m x y = isWall m (\<lfloor>x + 0.5\<rfloor>, \<lfloor>y + 0.5\<rfloor>)"

definition canMoveTo :: "MazeGenerator \<Rightarrow> real \<Rightarrow> real \<Rightarrow> bool" where
  "canMoveTo m x y =
     (if x < 0.5 \<or> x \<ge> real_of_int (width m) - 0.5 \<or> y < 0.5 \<or> y \<ge> real_of_int (height m) - 0.5
      then False
      else \<not> isCollidingWithWall m x y)"

section \<open>Notions of the specification\<close>

text \<open>Two cells are orthogonally adjacent: they differ by one step north, east, south or west.\<close>

definition adjacent :: "cell \<Rightarrow> cell \<Rightarrow> bool" where
  "adjacent c c' =
     (case (c, c') of ((x, y), (x', y')) \<Rightarrow>
        (x' = x \<and> (y' = y - 1 \<or> y' = y + 1)) \<or> (y' = y \<and> (x' = x + 1 \<or> x' = x - 1)))"

text \<open>A passage cell of the grid: inside the bounds and not a wall.\<close>

definition passage :: "MazeGenerator \<Rightarrow> cell \<Rightarrow> bool" where
  "passage m c = (isInBounds m c \<and> \<not> isWall m c)"

text \<open>
  \<open>walk m s n c\<close>: there is a chain of \<open>n\<close> steps from \<open>s\<close> to \<open>c\<close>, each step
  going to an orthogonally adjacent passage cell of the grid.
\<close>

inductive walk :: "MazeGenerator \<Rightarrow> cell \<Rightarrow> nat \<Rightarrow> cell \<Rightarrow> bool" for m s where
  walk_start: "walk m s 0 s"
| walk_step: "walk m s n c \<Longrightarrow> adjacent c c' \<Longrightarrow> passage m c' \<Longrightarrow> walk m s (Suc n) c'"

text \<open>The passage graph is connected: every passage cell is reachable from every other.\<close>

definition connected :: "MazeGenerator \<Rightarrow> bool" where
  "connected m = (\<forall>a b. passage m a \<and> passage m b \<longrightarrow> (\<exists>n. walk m a n b))"

text \<open>The number of passage cells of the grid.\<close>

definition passageCount :: "MazeGenerator \<Rightarrow> nat" where
  "passageCount m = length (filter (\<lambda>c. \<not> isWall m c) (grid_cells m))"

text \<open>
  What a run of the loop of \<open>braid\<close> over \<open>deadEnds\<close> can have done to the maze:
  nothing but the map changes, and a cell whose entry changed was a wall inside the bounds,
  next to one of the \<open>deadEnds\<close>, and is a passage now.
\<close>

definition carved :: "MazeGenerator \<Rightarrow> cell list \<Rightarrow> MazeGenerator \<Rightarrow> bool" where
  "carved m deadEnds m' \<longleftrightarrow>
     width m' = width m \<and> height m' = height m \<and> algorithm m' = algorithm m \<and>
     startPos m' = startPos m \<and> exitPos m' = exitPos m \<and>
     (\<forall>c. maze m' c = maze m c \<or>
          (isInBounds m c \<and> isWall m c \<and> maze m' c = Some False \<and>
           (\<exists>e \<in> set deadEnds. adjacent e c)))"

text \<open>A dead end: a passage cell with exactly one orthogonally adjacent passage cell.\<close>

definition deadEnd :: "MazeGenerator \<Rightarrow> cell \<Rightarrow> bool" where
  "deadEnd m c = (passage m c \<and> card {n. adjacent c n \<and> passage m n} = 1)"

text \<open>
  The invariant of the loop of \<open>calculateDistances\<close> from the source \<open>s\<close>: the
  source is in the map with distance 0; a queued cell is in the map with the distance
  queued with it; the queue is ordered by distance; a cell in the map is reached by a chain
  of that length; no distance in the map exceeds a queued distance by more than one; and
  the neighbours of a cell that has left the queue are in the map, at most one step
  further.
\<close>

definition bfs_inv :: "MazeGenerator \<Rightarrow> cell \<Rightarrow> (cell \<rightharpoonup> nat) \<Rightarrow> (cell \<times> nat) list \<Rightarrow> bool" where
  "bfs_inv m s distances queue \<longleftrightarrow>
     distances s = Some 0 \<and>
     (\<forall>c d. (c, d) \<in> set queue \<longrightarrow> distances c = Some d) \<and>
     sorted (map snd queue) \<and>
     (\<forall>c d. distances c = Some d \<longrightarrow> walk m s d c) \<and>
     (\<forall>c d c' d'. distances c = Some d \<and> (c', d') \<in> set queue \<longrightarrow> d \<le> d' + 1) \<and>
     (\<forall>c d n. distances c = Some d \<and> c \<notin> fst ` set queue \<and> n \<in> set (getPassageNeighbors m c)
        \<longrightarrow> (\<exists>d'. distances n = Some d' \<and> d' \<le> d + 1))"

text \<open>
  \<open>before n (i, j) (i', j')\<close>: the pair of indices \<open>(i', j')\<close>, with \<open>i' < j' < n\<close>, is
  enumerated by the two loops before they reach \<open>(i, j)\<close>.
\<close>

definition before :: "nat \<Rightarrow> nat \<times> nat \<Rightarrow> nat \<times> nat \<Rightarrow> bool" where
  "before n p p' \<longleftrightarrow>
     fst p' < snd p' \<and> snd p' < n \<and> (fst p' < fst p \<or> (fst p' = fst p \<and> snd p' < snd p))"

text \<open>
  The invariant of the search when the loops are at \<open>p\<close>: no pair enumerated before
  \<open>p\<close> has a distance above \<open>maxPathDistance\<close>, and either the initial pair is
  still in place with \<open>maxPathDistance = 0\<close>, or the pair kept was enumerated, has the
  distance \<open>maxPathDistance\<close>, and every pair before it has a smaller distance.
\<close>

definition pair_inv :: "MazeGenerator \<Rightarrow> cell list \<Rightarrow> nat \<times> nat \<Rightarrow> best \<Rightarrow> bool" where
  "pair_inv m bc p st \<longleftrightarrow>
     (case st of (maxPathDistance, bestStart, bestExit) \<Rightarrow>
        (\<forall>p' d. before (length bc) p p' \<and>
                calculateDistances m (bc ! fst p') (bc ! snd p') = Some d \<longrightarrow> d \<le> maxPathDistance) \<and>
        ((maxPathDistance = 0 \<and> bestStart = bc ! 0 \<and> bestExit = bc ! 1) \<or>
         (\<exists>q. before (length bc) p q \<and> bestStart = bc ! fst q \<and> bestExit = bc ! snd q \<and>
              calculateDistances m (bc ! fst q) (bc ! snd q) = Some maxPathDistance \<and>
              (\<forall>p' d. before (length bc) q p' \<and>
                 calculateDistances m (bc ! fst p') (bc ! snd p') = Some d \<longrightarrow> d < maxPathDistance))))"

subsection \<open>A small maze\<close>

text \<open>
  Two rows of two cells: the upper row is a corridor, the lower row is walls. Both cells
  of the corridor are dead ends, each with one walled neighbour below it.
\<close>

definition example_maze :: MazeGenerator where
  "example_maze =
     \<lparr>width = 2, height = 2, algorithm = ''divided'',
      maze = [(0, 0) \<mapsto> False, (1, 0) \<mapsto> False, (0, 1) \<mapsto> True, (1, 1) \<mapsto> True],
      startPos = Some (0, 0), exitPos = Some (1, 0)\<rparr>"

text \<open>A sequence of calls of the callback that yields the walls of \<open>example_maze\<close>.\<close>

definition example_create :: "rot_map \<Rightarrow> int \<Rightarrow> (int \<times> int \<times> int) list" where
  "example_create generator seed = [(0, 0, 0), (1, 0, 0), (0, 1, 1), (1, 1, 1)]"

text \<open>
  What \<open>ROT.Map.DividedMaze(3, 3)\<close> reports, column by column: the border of the
  grid is walls and the centre is the only passage.
\<close>

definition divided_3x3 :: "rot_map \<Rightarrow> int \<Rightarrow> (int \<times> int \<times> int) list" where
  "divided_3x3 generator seed =
     [(0, 0, 1), (0, 1, 1), (0, 2, 1), (1, 0, 1), (1, 1, 0), (1, 2, 1),
      (2, 0, 1), (2, 1, 1), (2, 2, 1)]"

text \<open>
  A ring: three rows of three cells, the centre is a wall and the eight cells around it
  are passages. All eight are border cells, in row-major order
  \<open>(0,0), (1,0), (2,0), (0,1), (2,1), (0,2), (1,2), (2,2)\<close>; opposite cells of the
  ring are four steps apart, so four pairs of positions tie at the largest distance, of
  which \<open>(0, 7)\<close> is enumerated first.
\<close>

definition ring_maze :: MazeGenerator where
  "ring_maze =
     \<lparr>width = 3, height = 3, algorithm = ''divided'',
      maze = [(0, 0) \<mapsto> False, (1, 0) \<mapsto> False, (2, 0) \<mapsto> False,
              (0, 1) \<mapsto> False, (1, 1) \<mapsto> True, (2, 1) \<mapsto> False,
              (0, 2) \<mapsto> False, (1, 2) \<mapsto> False, (2, 2) \<mapsto> False],
      startPos = None, exitPos = None\<rparr>"

section \<open>Termination of the breadth-first search\<close>

text \<open>
  Every cell the loop adds to the map is inside the bounds, and a cell enters the queue
  only when it enters the map: twice the number of cells of the grid that are not yet in the
  map, plus the length of the queue, decreases at each iteration.
\<close>


lemma finite_inBounds: "finite {c. isInBounds m c}"
proof -
  have "{c. isInBounds m c} \<subseteq> {0 ..< width m} \<times> {0 ..< height m}"
    by (auto simp: isInBounds_def)
  then show ?thesis by (rule finite_subset) simp
qed

lemma finite_unvisited: "finite (unvisited m distances)"
  by (rule finite_subset [OF _ finite_inBounds [of m]]) (auto simp: unvisited_def)

lemma getPassageNeighbors_iff:
  "c' \<in> set (getPassageNeighbors m c) \<longleftrightarrow> adjacent c c' \<and> passage m c'"
  by (cases c; cases c') (auto simp: getPassageNeighbors_def directions_def adjacent_def passage_def)

lemma getWalledNeighbors_iff:
  "c' \<in> set (getWalledNeighbors m c) \<longleftrightarrow> adjacent c c' \<and> isInBounds m c' \<and> isWall m c'"
  by (cases c; cases c') (auto simp: getWalledNeighbors_def directions_def adjacent_def)

lemma unvisited_update:
  "isInBounds m n \<Longrightarrow> distances n = None \<Longrightarrow>
   card (unvisited m (distances(n \<mapsto> v))) < card (unvisited m distances)"
proof -
  assume a: "isInBounds m n" "distances n = None"
  have "unvisited m (distances(n \<mapsto> v)) = unvisited m distances - {n}"
    by (auto simp: unvisited_def)
  moreover have "n \<in> unvisited m distances" using a by (simp add: unvisited_def)
  ultimately show ?thesis
    using card_Diff1_less [OF finite_unvisited, of n m distances] by simp
qed

lemma fold_visit_measure:
  "\<forall>n \<in> set ns. isInBounds m n \<Longrightarrow>
   2 * card (unvisited m (fst (fold (visit d) ns st))) + length (snd (fold (visit d) ns st))
     \<le> 2 * card (unvisited m (fst st)) + length (snd st)"
proof (induction ns arbitrary: st)
  case Nil
  then show ?case by simp
next
  case (Cons n ns)
  obtain distances queue where st: "st = (distances, queue)" by (cases st)
  have step: "2 * card (unvisited m (fst (visit d n st))) + length (snd (visit d n st))
     \<le> 2 * card (unvisited m (fst st)) + length (snd st)"
  proof (cases "distances n")
    case None
    with Cons.prems have "card (unvisited m (distances(n \<mapsto> d + 1))) < card (unvisited m distances)"
      by (intro unvisited_update) auto
    with None show ?thesis by (simp add: st visit_def)
  next
    case (Some a)
    then show ?thesis by (simp add: st visit_def)
  qed
  have "2 * card (unvisited m (fst (fold (visit d) ns (visit d n st))))
          + length (snd (fold (visit d) ns (visit d n st)))
        \<le> 2 * card (unvisited m (fst (visit d n st))) + length (snd (visit d n st))"
    using Cons.prems by (intro Cons.IH) auto
  with step show ?case by simp
qed

termination bfs_loop
proof (relation "measure (\<lambda>(m, distances, queue). 2 * card (unvisited m distances) + length queue)")
  show "wf (measure (\<lambda>(m, distances, queue). 2 * card (unvisited m distances) + length queue))"
    by simp
next
  fix m :: MazeGenerator and distances :: "cell \<rightharpoonup> nat" and c d queue x1 x2
  assume "(x1, x2) = fold (visit d) (getPassageNeighbors m c) (distances, queue)"
  then have eq: "fold (visit d) (getPassageNeighbors m c) (distances, queue) = (x1, x2)" by simp
  have "\<forall>n \<in> set (getPassageNeighbors m c). isInBounds m n"
    by (simp add: getPassageNeighbors_iff passage_def)
  from fold_visit_measure [OF this, of d "(distances, queue)"] eq
  show "((m, x1, x2), (m, distances, (c, d) # queue))
        \<in> measure (\<lambda>(m, distances, queue). 2 * card (unvisited m distances) + length queue)"
    by simp
qed

declare bfs_loop.simps [simp del]

declare pair_inner.simps [simp del] pair_outer.simps [simp del]

section \<open>The grid and the effect of braiding\<close>


lemma set_grid_cells: "set (grid_cells m) = {c. isInBounds m c}"
  by (auto simp: grid_cells_def isInBounds_def)

lemma distinct_rows:
  "distinct xs \<Longrightarrow> distinct ys \<Longrightarrow> distinct (concat (map (\<lambda>y. map (\<lambda>x. (x, y)) xs) ys))"
proof (induction ys)
  case Nil
  then show ?case by simp
next
  case (Cons y ys)
  have "distinct (map (\<lambda>x. (x, y)) xs)"
    using Cons.prems(1) by (simp add: distinct_map inj_on_def)
  moreover have "set (map (\<lambda>x. (x, y)) xs) \<inter> set (concat (map (\<lambda>y. map (\<lambda>x. (x, y)) xs) ys)) = {}"
    using Cons.prems(2) by auto
  ultimately show ?case using Cons by simp
qed

lemma distinct_grid_cells: "distinct (grid_cells m)"
  unfolding grid_cells_def by (rule distinct_rows) simp_all

lemma isInBounds_cong: "width m' = width m \<Longrightarrow> height m' = height m \<Longrightarrow> isInBounds m' = isInBounds m"
  by (auto simp: isInBounds_def fun_eq_iff)

lemma setWall_fields [simp]:
  "width (setWall m c w) = width m" "height (setWall m c w) = height m"
  "algorithm (setWall m c w) = algorithm m"
  "startPos (setWall m c w) = startPos m" "exitPos (setWall m c w) = exitPos m"
  "maze (setWall m c w) = (maze m)(c \<mapsto> w)"
  by (simp_all add: setWall_def)

lemma isInBounds_setWall [simp]: "isInBounds (setWall m c w) = isInBounds m"
  by (rule isInBounds_cong) simp_all

lemma isWall_setWall: "isWall (setWall m c w) c' = (if c' = c then w else isWall m c')"
  by (simp add: isWall_def)

lemma carved_refl: "carved m deadEnds m"
  by (simp add: carved_def)

lemma carved_Cons:
  assumes "carved m deadEnds m'"
  shows "carved m (e # deadEnds) m'"
proof -
  have "maze m' c = maze m c \<or>
          (isInBounds m c \<and> isWall m c \<and> maze m' c = Some False \<and>
           (\<exists>e' \<in> set (e # deadEnds). adjacent e' c))" for c
  proof -
    from assms have "maze m' c = maze m c \<or>
          (isInBounds m c \<and> isWall m c \<and> maze m' c = Some False \<and>
           (\<exists>e' \<in> set deadEnds. adjacent e' c))"
      unfolding carved_def by blast
    then show ?thesis by auto
  qed
  with assms show ?thesis unfolding carved_def by simp
qed

lemma carved_step:
  assumes t: "t \<in> set (getWalledNeighbors m e)"
    and rest: "carved (setWall m t False) deadEnds m'"
  shows "carved m (e # deadEnds) m'"
proof -
  from t have adj: "adjacent e t" and inb: "isInBounds m t" and wall: "isWall m t"
    by (simp_all add: getWalledNeighbors_iff)
  have "maze m' c = maze m c \<or>
          (isInBounds m c \<and> isWall m c \<and> maze m' c = Some False \<and>
           (\<exists>e' \<in> set (e # deadEnds). adjacent e' c))" for c
  proof (cases "c = t")
    case True
    from rest have "maze m' t = maze (setWall m t False) t \<or> maze m' t = Some False"
      unfolding carved_def by blast
    then have "maze m' t = Some False" by auto
    with True adj inb wall show ?thesis by auto
  next
    case False
    from rest have "maze m' c = maze (setWall m t False) c \<or>
        (isInBounds (setWall m t False) c \<and> isWall (setWall m t False) c \<and>
         maze m' c = Some False \<and> (\<exists>e' \<in> set deadEnds. adjacent e' c))"
      unfolding carved_def by blast
    with False show ?thesis
      by (auto simp: isWall_setWall)
  qed
  with rest show ?thesis unfolding carved_def by simp
qed

lemma braid_loop_carved: "carved m deadEnds (fst (braid_loop percentage deadEnds g m))"
proof (induction deadEnds arbitrary: g m)
  case Nil
  show ?case by (simp add: carved_refl)
next
  case (Cons e deadEnds)
  obtain r g1 where r: "Math_random g = (r, g1)" by (cases "Math_random g")
  obtain r' g2 where r': "Math_random g1 = (r', g2)" by (cases "Math_random g1")
  let ?wn = "getWalledNeighbors m e"
  let ?k = "\<lfloor>r' * real (length ?wn)\<rfloor>"
  show ?case
  proof (cases "r * 100 < percentage \<and> length ?wn > 0")
    case False
    then have "braid_loop percentage (e # deadEnds) g m = braid_loop percentage deadEnds g1 m"
      by (auto simp: r Let_def)
    then show ?thesis using carved_Cons [OF Cons.IH [where g = g1 and m = m]] by (simp only:)
  next
    case True
    show ?thesis
    proof (cases "0 \<le> ?k \<and> ?k < int (length ?wn)")
      case False
      with True have "braid_loop percentage (e # deadEnds) g m = (m, Some TypeError)"
        by (auto simp: r r' Let_def)
      then show ?thesis by (simp only: fst_conv carved_refl)
    next
      case k: True
      with True have eq: "braid_loop percentage (e # deadEnds) g m
          = braid_loop percentage deadEnds g2 (setWall m (?wn ! nat ?k) False)"
        by (auto simp: r r' Let_def)
      from k have "?wn ! nat ?k \<in> set ?wn" by (intro nth_mem) linarith
      from carved_step [OF this Cons.IH [where g = g2 and m = "setWall m (?wn ! nat ?k) False"]]
      show ?thesis by (simp only: eq)
    qed
  qed
qed

lemma braid_carved: "carved m (findAllDeadEnds m) (fst (braid g percentage m))"
  by (simp add: braid_def carved_refl braid_loop_carved)

text \<open>
  \<^verbatim>\<open>Math.random()\<close> returns values in \<open>[0, 1)\<close>. With such draws the index
  is inside the array and the loop raises nothing.
\<close>

lemma braid_loop_no_error:
  "\<forall>i. 0 \<le> g i \<and> g i < 1 \<Longrightarrow> snd (braid_loop percentage deadEnds g m) = None"
proof (induction deadEnds arbitrary: g m)
  case Nil
  show ?case by simp
next
  case (Cons e deadEnds)
  let ?g1 = "\<lambda>i. g (Suc i)"
  let ?g2 = "\<lambda>i. g (Suc (Suc i))"
  have r: "Math_random g = (g 0, ?g1)" and r': "Math_random ?g1 = (g 1, ?g2)"
    by (simp_all add: Math_random_def)
  have g1: "\<forall>i. 0 \<le> ?g1 i \<and> ?g1 i < 1" and g2: "\<forall>i. 0 \<le> ?g2 i \<and> ?g2 i < 1"
    using Cons.prems by simp_all
  let ?wn = "getWalledNeighbors m e"
  let ?k = "\<lfloor>g 1 * real (length ?wn)\<rfloor>"
  show ?case
  proof (cases "g 0 * 100 < percentage \<and> length ?wn > 0")
    case False
    then have "braid_loop percentage (e # deadEnds) g m = braid_loop percentage deadEnds ?g1 m"
      by (auto simp: r Let_def)
    then show ?thesis using Cons.IH [OF g1] by (simp only:)
  next
    case True
    from Cons.prems have b: "0 \<le> g 1" "g 1 < 1" by simp_all
    from True have n: "0 < real (length ?wn)" by simp
    have "0 \<le> g 1 * real (length ?wn)" using b(1) by simp
    then have k0: "0 \<le> ?k" by simp
    have "g 1 * real (length ?wn) < 1 * real (length ?wn)"
      using b(2) n by (intro mult_strict_right_mono)
    then have k1: "?k < int (length ?wn)" by (simp add: floor_less_iff)
    from True k0 k1 have "braid_loop percentage (e # deadEnds) g m
        = braid_loop percentage deadEnds ?g2 (setWall m (?wn ! nat ?k) False)"
      by (simp add: r r' Let_def)
    then show ?thesis using Cons.IH [OF g2] by (simp only:)
  qed
qed

lemma braid_no_error:
  "\<forall>i. 0 \<le> g i \<and> g i < 1 \<Longrightarrow> snd (braid g percentage m) = None"
  by (simp add: braid_def braid_loop_no_error)

lemma carved_isWall:
  assumes "carved m ds m'" and "isWall m' c"
  shows "isWall m c"
proof -
  from assms(1) have "maze m' c = maze m c \<or> (isWall m c \<and> maze m' c = Some False)"
    unfolding carved_def by blast
  with assms(2) show ?thesis by (auto simp: isWall_def)
qed

lemma setStartAndExit_fields [simp]:
  "width (setStartAndExit m) = width m" "height (setStartAndExit m) = height m"
  "algorithm (setStartAndExit m) = algorithm m" "maze (setStartAndExit m) = maze m"
  by (simp_all add: setStartAndExit_def Let_def split: prod.splits)

section \<open>Braiding with a percentage of zero or less\<close>

text \<open>
  Claim C6. For every maze and every percentage less than or equal to 0, \<open>braid\<close>
  returns the maze as it was: the map of cells, the dimensions, the start and the exit
  are those before the call, and no exception is raised.
\<close>

theorem braid_nonpositive_identity:
  "percentage \<le> 0 \<Longrightarrow> braid g percentage m = (m, None)"
  by (simp add: braid_def)

theorem braid_nonpositive_identity_witness:
  "(- 5 :: real) \<le> 0 \<and> braid (\<lambda>i. 0) (- 5) example_maze = (example_maze, None)"
  using braid_nonpositive_identity [of "- 5" "\<lambda>i. 0" example_maze] by simp

section \<open>The frame of braiding\<close>

lemma distinct_getPassageNeighbors: "distinct (getPassageNeighbors m c)"
  by (cases c) (simp add: getPassageNeighbors_def directions_def)

lemma set_getPassageNeighbors:
  "set (getPassageNeighbors m c) = {n. adjacent c n \<and> passage m n}"
  by (auto simp: getPassageNeighbors_iff)

lemma findAllDeadEnds_deadEnd:
  assumes "e \<in> set (findAllDeadEnds m)"
  shows "deadEnd m e"
proof -
  from assms have inb: "isInBounds m e" and nw: "\<not> isWall m e"
    and len: "length (getPassageNeighbors m e) = 1"
    by (auto simp: findAllDeadEnds_def set_grid_cells isDeadEnd_def)
  have "card (set (getPassageNeighbors m e)) = length (getPassageNeighbors m e)"
    by (rule distinct_card) (rule distinct_getPassageNeighbors)
  with len have "card {n. adjacent e n \<and> passage m n} = 1"
    by (simp add: set_getPassageNeighbors)
  with inb nw show ?thesis by (simp add: deadEnd_def passage_def)
qed

text \<open>
  Claim C9. Whatever the percentage and the random draws, a cell whose entry in the map
  differs after \<open>braid\<close> was a wall before the call, lies inside the bounds and is
  orthogonally adjacent to a cell that was a dead end (a passage cell with exactly one
  passage neighbour) of the maze before the call. The entries of all other cells, the
  dimensions, the start and the exit are unchanged.
\<close>

theorem braid_frame:
  "width (fst (braid g percentage m)) = width m \<and>
   height (fst (braid g percentage m)) = height m \<and>
   startPos (fst (braid g percentage m)) = startPos m \<and>
   exitPos (fst (braid g percentage m)) = exitPos m \<and>
   (\<forall>c. maze (fst (braid g percentage m)) c \<noteq> maze m c \<longrightarrow>
        isWall m c \<and> isInBounds m c \<and> (\<exists>e. deadEnd m e \<and> adjacent e c))"
proof -
  let ?m' = "fst (braid g percentage m)"
  have c: "carved m (findAllDeadEnds m) ?m'" by (rule braid_carved)
  have "isWall m c \<and> isInBounds m c \<and> (\<exists>e. deadEnd m e \<and> adjacent e c)"
    if "maze ?m' c \<noteq> maze m c" for c
  proof -
    from c that have "isInBounds m c \<and> isWall m c \<and> (\<exists>e \<in> set (findAllDeadEnds m). adjacent e c)"
      unfolding carved_def by blast
    then show ?thesis using findAllDeadEnds_deadEnd by blast
  qed
  with c show ?thesis unfolding carved_def by blast
qed

theorem braid_frame_witness:
  "maze (fst (braid (\<lambda>i. 0) 50 example_maze)) (0, 1) \<noteq> maze example_maze (0, 1) \<and>
   isWall example_maze (0, 1) \<and> isInBounds example_maze (0, 1) \<and>
   (\<exists>e. deadEnd example_maze e \<and> adjacent e (0, 1))"
proof -
  have changed: "maze (fst (braid (\<lambda>i. 0) 50 example_maze)) (0, 1) \<noteq> maze example_maze (0, 1)"
    by code_simp
  with braid_frame [of "\<lambda>i. 0" 50 example_maze] show ?thesis by blast
qed

section \<open>Braiding never removes a passage\<close>

lemma adjacent_sym: "adjacent a b \<Longrightarrow> adjacent b a"
  by (cases a; cases b) (auto simp: adjacent_def)

lemma walk_trans: "walk m b k c \<Longrightarrow> walk m a n b \<Longrightarrow> walk m a (n + k) c"
proof (induction rule: walk.induct)
  case walk_start
  then show ?case by simp
next
  case (walk_step k c c')
  then have "walk m a (Suc (n + k)) c'" by (intro walk.walk_step) auto
  then show ?case by simp
qed

lemma walk_mono:
  assumes "walk m s n c" and "\<And>x. passage m x \<Longrightarrow> passage m' x"
  shows "walk m' s n c"
  using assms by (induction rule: walk.induct) (auto intro: walk.intros)

lemma walk_one: "adjacent a b \<Longrightarrow> passage m b \<Longrightarrow> walk m a 1 b"
  using walk_step [OF walk_start, of a b m] by simp

lemma passage_setWall:
  "passage (setWall m t False) c \<longleftrightarrow> passage m c \<or> (c = t \<and> isInBounds m t)"
  by (auto simp: passage_def isWall_setWall)

lemma connected_setWall:
  assumes conn: "connected m" and e: "passage m e" and adj: "adjacent e t"
    and inb: "isInBounds m t"
  shows "connected (setWall m t False)"
proof -
  let ?m' = "setWall m t False"
  have mono: "\<And>x. passage m x \<Longrightarrow> passage ?m' x" by (simp add: passage_setWall)
  have pt: "passage ?m' t" using inb by (simp add: passage_setWall)
  have "\<exists>n. walk ?m' a n b" if a: "passage ?m' a" and b: "passage ?m' b" for a b
  proof -
    have to_e: "\<exists>n. walk ?m' a n e"
    proof (cases "passage m a")
      case True
      with conn e obtain n where "walk m a n e" unfolding connected_def by blast
      then show ?thesis using walk_mono mono by blast
    next
      case False
      with a have "a = t" by (simp add: passage_setWall)
      with adj e show ?thesis using walk_one [OF adjacent_sym mono] by blast
    qed
    have from_e: "\<exists>n. walk ?m' e n b"
    proof (cases "passage m b")
      case True
      with conn e obtain n where "walk m e n b" unfolding connected_def by blast
      then show ?thesis using walk_mono mono by blast
    next
      case False
      with b have "b = t" by (simp add: passage_setWall)
      with adj pt show ?thesis using walk_one by blast
    qed
    from to_e from_e show ?thesis using walk_trans by blast
  qed
  then show ?thesis unfolding connected_def by blast
qed

lemma braid_loop_connected:
  "connected m \<Longrightarrow> \<forall>e \<in> set deadEnds. passage m e \<Longrightarrow>
   connected (fst (braid_loop percentage deadEnds g m))"
proof (induction deadEnds arbitrary: g m)
  case Nil
  then show ?case by simp
next
  case (Cons e deadEnds)
  obtain r g1 where r: "Math_random g = (r, g1)" by (cases "Math_random g")
  obtain r' g2 where r': "Math_random g1 = (r', g2)" by (cases "Math_random g1")
  let ?wn = "getWalledNeighbors m e"
  let ?k = "\<lfloor>r' * real (length ?wn)\<rfloor>"
  from Cons.prems have rest: "\<forall>e \<in> set deadEnds. passage m e" and e: "passage m e" by simp_all
  show ?case
  proof (cases "r * 100 < percentage \<and> length ?wn > 0")
    case False
    then have "braid_loop percentage (e # deadEnds) g m = braid_loop percentage deadEnds g1 m"
      by (auto simp: r Let_def)
    then show ?thesis
      using Cons.IH [where g = g1 and m = m, OF Cons.prems(1) rest] by (simp only:)
  next
    case True
    show ?thesis
    proof (cases "0 \<le> ?k \<and> ?k < int (length ?wn)")
      case False
      with True have "braid_loop percentage (e # deadEnds) g m = (m, Some TypeError)"
        by (auto simp: r r' Let_def)
      then show ?thesis using Cons.prems(1) by (simp only: fst_conv)
    next
      case k: True
      let ?t = "?wn ! nat ?k"
      from k True have eq: "braid_loop percentage (e # deadEnds) g m
          = braid_loop percentage deadEnds g2 (setWall m ?t False)"
        by (auto simp: r r' Let_def)
      from k have "?t \<in> set ?wn" by (intro nth_mem) linarith
      then have adj: "adjacent e ?t" and inb: "isInBounds m ?t"
        by (simp_all add: getWalledNeighbors_iff)
      have conn': "connected (setWall m ?t False)"
        by (rule connected_setWall [OF Cons.prems(1) e adj inb])
      have rest': "\<forall>e \<in> set deadEnds. passage (setWall m ?t False) e"
        using rest by (simp add: passage_setWall)
      show ?thesis
        using Cons.IH [where g = g2 and m = "setWall m ?t False", OF conn' rest']
        by (simp only: eq)
    qed
  qed
qed

lemma length_filter_mono:
  "(\<And>x. P x \<Longrightarrow> Q x) \<Longrightarrow> length (filter P xs) \<le> length (filter Q xs)"
  by (induction xs) auto

lemma carved_grid_cells: "carved m ds m' \<Longrightarrow> grid_cells m' = grid_cells m"
  by (simp add: carved_def grid_cells_def)

text \<open>
  Claim C2. Whatever the percentage and the random draws, a cell that was not a wall
  before \<open>braid\<close> is not a wall after it, so the number of passage cells of the grid does
  not decrease; and if every passage cell was reachable from every other passage cell
  through orthogonally adjacent passage cells before \<open>braid\<close>, the same holds after it.
\<close>

theorem braid_keeps_passages:
  "(\<forall>c. \<not> isWall m c \<longrightarrow> \<not> isWall (fst (braid g percentage m)) c) \<and>
   passageCount m \<le> passageCount (fst (braid g percentage m)) \<and>
   (connected m \<longrightarrow> connected (fst (braid g percentage m)))"
proof -
  let ?m' = "fst (braid g percentage m)"
  have c: "carved m (findAllDeadEnds m) ?m'" by (rule braid_carved)
  have keep: "\<not> isWall ?m' x" if "\<not> isWall m x" for x
    using carved_isWall [OF c] that by blast
  have count: "passageCount m \<le> passageCount ?m'"
    unfolding passageCount_def carved_grid_cells [OF c]
    by (rule length_filter_mono) (rule keep)
  have conn: "connected ?m'" if "connected m"
  proof (cases "percentage \<le> 0")
    case True
    with that show ?thesis by (simp add: braid_def)
  next
    case False
    have "\<forall>e \<in> set (findAllDeadEnds m). passage m e"
      by (auto simp: findAllDeadEnds_def set_grid_cells passage_def)
    from braid_loop_connected [OF that this] False show ?thesis
      by (simp add: braid_def)
  qed
  from keep count conn show ?thesis by blast
qed

lemma passage_example_maze: "passage example_maze c \<longleftrightarrow> c = (0, 0) \<or> c = (1, 0)"
  by (cases c) (auto simp: passage_def isInBounds_def isWall_def example_maze_def)

lemma connected_example_maze: "connected example_maze"
proof -
  have p0: "passage example_maze (0, 0)" and p1: "passage example_maze (1, 0)"
    by (simp_all add: passage_example_maze)
  have a01: "adjacent (0, 0) (1, 0)" and a10: "adjacent (1, 0) (0, 0)"
    by (simp_all add: adjacent_def)
  have "\<exists>n. walk example_maze a n b" if "passage example_maze a" "passage example_maze b" for a b
    using that walk_start [of example_maze] walk_one [OF a01 p1] walk_one [OF a10 p0]
    unfolding passage_example_maze by metis
  then show ?thesis unfolding connected_def by blast
qed

theorem braid_keeps_passages_witness:
  "\<not> isWall example_maze (0, 0) \<and> \<not> isWall (fst (braid (\<lambda>i. 0) 50 example_maze)) (0, 0) \<and>
   passageCount example_maze \<le> passageCount (fst (braid (\<lambda>i. 0) 50 example_maze)) \<and>
   connected example_maze \<and> connected (fst (braid (\<lambda>i. 0) 50 example_maze))"
proof -
  have "\<not> isWall example_maze (0, 0)" by code_simp
  with braid_keeps_passages [of example_maze "\<lambda>i. 0" 50] connected_example_maze
  show ?thesis by blast
qed

section \<open>The endpoint selection reads only the walls and the dimensions\<close>

lemma isWall_cong_grid_cells:
  "width m1 = width m2 \<Longrightarrow> height m1 = height m2 \<Longrightarrow> grid_cells m1 = grid_cells m2"
  by (simp add: grid_cells_def)

lemma getPassageNeighbors_cong:
  assumes "width m1 = width m2" "height m1 = height m2" "isWall m1 = isWall m2"
  shows "getPassageNeighbors m1 c = getPassageNeighbors m2 c"
proof -
  from assms have "isInBounds m1 = isInBounds m2" by (intro isInBounds_cong) simp_all
  with assms(3) show ?thesis by (simp add: getPassageNeighbors_def)
qed

lemma bfs_loop_cong:
  assumes "width m1 = width m2" "height m1 = height m2" "isWall m1 = isWall m2"
  shows "bfs_loop m1 distances queue = bfs_loop m2 distances queue"
  using assms
proof (induction m1 distances queue rule: bfs_loop.induct)
  case (1 m distances)
  show ?case by (simp add: bfs_loop.simps)
next
  case (2 m distances c d queue)
  obtain distances' queue' where
    f: "fold (visit d) (getPassageNeighbors m c) (distances, queue) = (distances', queue')"
    by (cases "fold (visit d) (getPassageNeighbors m c) (distances, queue)")
  have n: "getPassageNeighbors m c = getPassageNeighbors m2 c"
    using "2.prems" by (rule getPassageNeighbors_cong)
  have "bfs_loop m distances' queue' = bfs_loop m2 distances' queue'"
    using "2.IH" [OF f [symmetric]] "2.prems" by blast
  then show ?case using f n by (simp add: bfs_loop.simps)
qed

lemma calculateDistances_cong:
  assumes "width m1 = width m2" "height m1 = height m2" "isWall m1 = isWall m2"
  shows "calculateDistances m1 = calculateDistances m2"
  using bfs_loop_cong [OF assms] by (simp add: calculateDistances_def fun_eq_iff)

lemma borderCells_cong:
  assumes "width m1 = width m2" "height m1 = height m2" "isWall m1 = isWall m2"
  shows "borderCells m1 = borderCells m2"
  using assms by (simp add: borderCells_def nearBorder_def grid_cells_def)

lemma pair_outer_cong:
  assumes "calculateDistances m1 = calculateDistances m2"
  shows "pair_outer m1 bc i st = pair_outer m2 bc i st"
  using assms
proof (induction m1 bc i st rule: pair_outer.induct)
  case (1 m bc i st)
  show ?case
  proof (cases "i < length bc")
    case True
    with "1.IH" "1.prems" show ?thesis
      by (simp add: pair_outer.simps [of m] pair_outer.simps [of m2])
  next
    case False
    then show ?thesis by (simp add: pair_outer.simps)
  qed
qed

text \<open>
  Claim C8. Two runs of \<open>setStartAndExit\<close> on mazes with the same dimensions and the
  same walls assign the same start and the same exit: nothing else is read, and no
  random draw is made.
\<close>

theorem setStartAndExit_deterministic:
  assumes "width m1 = width m2" and "height m1 = height m2"
    and "\<forall>c. isWall m1 c = isWall m2 c"
  shows "startPos (setStartAndExit m1) = startPos (setStartAndExit m2) \<and>
         exitPos (setStartAndExit m1) = exitPos (setStartAndExit m2)"
proof -
  from assms(3) have walls: "isWall m1 = isWall m2" by blast
  have bc: "borderCells m1 = borderCells m2"
    using assms(1,2) walls by (rule borderCells_cong)
  have "calculateDistances m1 = calculateDistances m2"
    using assms(1,2) walls by (rule calculateDistances_cong)
  then have po: "pair_outer m1 bc i st = pair_outer m2 bc i st" for bc i st
    by (rule pair_outer_cong)
  show ?thesis
    by (simp add: setStartAndExit_def Let_def bc po assms(1,2) split: prod.splits)
qed

theorem setStartAndExit_deterministic_witness:
  "width example_maze = width (example_maze\<lparr>algorithm := ''eller'', startPos := None\<rparr>) \<and>
   height example_maze = height (example_maze\<lparr>algorithm := ''eller'', startPos := None\<rparr>) \<and>
   (\<forall>c. isWall example_maze c = isWall (example_maze\<lparr>algorithm := ''eller'', startPos := None\<rparr>) c) \<and>
   startPos (setStartAndExit example_maze)
     = startPos (setStartAndExit (example_maze\<lparr>algorithm := ''eller'', startPos := None\<rparr>)) \<and>
   exitPos (setStartAndExit example_maze)
     = exitPos (setStartAndExit (example_maze\<lparr>algorithm := ''eller'', startPos := None\<rparr>))"
proof -
  let ?m2 = "example_maze\<lparr>algorithm := ''eller'', startPos := None\<rparr>"
  have w: "width example_maze = width ?m2" and h: "height example_maze = height ?m2"
    and walls: "\<forall>c. isWall example_maze c = isWall ?m2 c"
    by (simp_all add: isWall_def)
  from setStartAndExit_deterministic [OF w h walls] w h walls show ?thesis by blast
qed

section \<open>Generation\<close>

lemma fold_setWall_fields:
  "width (fold (\<lambda>c m'. setWall m' c w) cs m) = width m \<and>
   height (fold (\<lambda>c m'. setWall m' c w) cs m) = height m \<and>
   algorithm (fold (\<lambda>c m'. setWall m' c w) cs m) = algorithm m"
  by (induction cs arbitrary: m) simp_all

lemma fold_setWall_maze:
  "maze (fold (\<lambda>c m'. setWall m' c w) cs m) c = (if c \<in> set cs then Some w else maze m c)"
  by (induction cs arbitrary: m) simp_all

lemma fold_callback_fields:
  "width (fold (\<lambda>(x, y, v) m'. setWall m' (x, y) (v = 1)) cbs m) = width m \<and>
   height (fold (\<lambda>(x, y, v) m'. setWall m' (x, y) (v = 1)) cbs m) = height m \<and>
   algorithm (fold (\<lambda>(x, y, v) m'. setWall m' (x, y) (v = 1)) cbs m) = algorithm m"
  by (induction cbs arbitrary: m) (simp_all split: prod.splits)

lemma fold_callback_maze:
  "\<forall>(x, y, v) \<in> set cbs. (x, y) \<noteq> c \<Longrightarrow>
   maze (fold (\<lambda>(x, y, v) m'. setWall m' (x, y) (v = (1::int))) cbs m) c = maze m c"
  by (induction cbs arbitrary: m) (auto split: prod.splits)

lemma maze_generate_outside:
  assumes cb: "\<forall>(x, y, v) \<in> set (create (select_generator (algorithm m) (width m) (height m)) seed).
                 isInBounds m (x, y)"
    and out: "\<not> isInBounds m c"
  shows "maze (generate create seed m) c = None"
proof -
  let ?m1 = "m\<lparr>maze := Map.empty\<rparr>"
  let ?m2 = "fold (\<lambda>c m'. setWall m' c True) (grid_cells ?m1) ?m1"
  let ?cbs = "create (select_generator (algorithm m) (width m) (height m)) seed"
  have b1: "isInBounds ?m1 = isInBounds m" by (rule isInBounds_cong) simp_all
  have m2: "maze ?m2 c = None"
    using out by (simp add: fold_setWall_maze set_grid_cells b1)
  have "\<forall>(x, y, v) \<in> set ?cbs. (x, y) \<noteq> c" using cb out by auto
  then have "maze (fold (\<lambda>(x, y, v) m'. setWall m' (x, y) (v = 1)) ?cbs ?m2) c = maze ?m2 c"
    by (rule fold_callback_maze)
  with m2 show ?thesis
    by (simp add: generate_def Let_def fold_setWall_fields)
qed

lemma generate_fields:
  "width (generate create seed m) = width m \<and> height (generate create seed m) = height m"
  by (simp add: generate_def Let_def fold_setWall_fields fold_callback_fields)

text \<open>
  Claim C10. For a generated maze, braided or not, and every coordinate pair outside
  the bounds of the grid, \<open>isWall\<close> returns false. What the library does is a parameter;
  the hypothesis on it is that it calls the callback with cells of the grid only.
\<close>

theorem isWall_outside_bounds:
  assumes "\<forall>(x, y, v) \<in> set (create (select_generator (algorithm m) (width m) (height m)) seed).
             isInBounds m (x, y)"
    and "x < 0 \<or> x \<ge> width m \<or> y < 0 \<or> y \<ge> height m"
  shows "\<not> isWall (generate create seed m) (x, y) \<and>
         \<not> isWall (fst (braid g percentage (generate create seed m))) (x, y)"
proof -
  from assms(2) have out: "\<not> isInBounds m (x, y)" by (auto simp: isInBounds_def)
  have "maze (generate create seed m) (x, y) = None"
    using maze_generate_outside [where create = create and m = m and seed = seed and c = "(x, y)"]
      assms(1) out by blast
  then have nw: "\<not> isWall (generate create seed m) (x, y)" by (simp add: isWall_def)
  have "carved (generate create seed m) (findAllDeadEnds (generate create seed m))
          (fst (braid g percentage (generate create seed m)))"
    by (rule braid_carved)
  from carved_isWall [OF this] nw show ?thesis by blast
qed

theorem isWall_outside_bounds_witness:
  "(2 :: int) \<ge> width (new_MazeGenerator 2 2 ''divided'') \<and>
   \<not> isWall (generate example_create 7 (new_MazeGenerator 2 2 ''divided'')) (2, 0) \<and>
   \<not> isWall (fst (braid (\<lambda>i. 0) 50 (generate example_create 7 (new_MazeGenerator 2 2 ''divided'')))) (2, 0)"
proof -
  let ?m = "new_MazeGenerator 2 2 ''divided''"
  have cb: "\<forall>(x, y, v) \<in> set (example_create (select_generator (algorithm ?m) (width ?m) (height ?m)) 7).
      isInBounds ?m (x, y)"
    by (simp add: example_create_def isInBounds_def new_MazeGenerator_def)
  have out: "(2 :: int) \<ge> width ?m" by (simp add: new_MazeGenerator_def)
  then have "(2 :: int) < 0 \<or> 2 \<ge> width ?m \<or> (0 :: int) < 0 \<or> 0 \<ge> height ?m" by simp
  with isWall_outside_bounds [where create = example_create and m = ?m and seed = 7
      and x = 2 and y = 0 and g = "\<lambda>i. 0" and percentage = 50] cb out
  show ?thesis by blast
qed

text \<open>
  The collision system checks the bounds before it asks for the wall: a position it
  accepts lies in a cell of the grid.
\<close>

lemma canMoveTo_in_bounds:
  assumes "canMoveTo m x y"
  shows "isInBounds m (\<lfloor>x + 0.5\<rfloor>, \<lfloor>y + 0.5\<rfloor>)"
proof -
  from assms have x: "0.5 \<le> x" "x < real_of_int (width m) - 0.5"
    and y: "0.5 \<le> y" "y < real_of_int (height m) - 0.5"
    by (auto simp: canMoveTo_def split: if_splits)
  have "0 \<le> \<lfloor>x + 0.5\<rfloor>" "\<lfloor>x + 0.5\<rfloor> < width m" "0 \<le> \<lfloor>y + 0.5\<rfloor>" "\<lfloor>y + 0.5\<rfloor> < height m"
    using x y by (simp_all add: floor_less_iff)
  then show ?thesis by (simp add: isInBounds_def)
qed

lemma setWall_algorithm_update:
  "setWall (m\<lparr>algorithm := a\<rparr>) c w = (setWall m c w)\<lparr>algorithm := a\<rparr>"
  by (simp add: setWall_def)

lemma fold_setWall_algorithm_update:
  "fold (\<lambda>c m'. setWall m' c w) cs (m\<lparr>algorithm := a\<rparr>)
     = (fold (\<lambda>c m'. setWall m' c w) cs m)\<lparr>algorithm := a\<rparr>"
  by (induction cs arbitrary: m) (simp_all add: setWall_algorithm_update)

lemma fold_callback_algorithm_update:
  "fold (\<lambda>(x, y, v) m'. setWall m' (x, y) (v = (1::int))) cbs (m\<lparr>algorithm := a\<rparr>)
     = (fold (\<lambda>(x, y, v) m'. setWall m' (x, y) (v = 1)) cbs m)\<lparr>algorithm := a\<rparr>"
  by (induction cbs arbitrary: m) (simp_all add: setWall_algorithm_update split: prod.splits)

lemma setStartAndExit_algorithm_update:
  "setStartAndExit (m\<lparr>algorithm := a\<rparr>) = (setStartAndExit m)\<lparr>algorithm := a\<rparr>"
proof -
  let ?m' = "m\<lparr>algorithm := a\<rparr>"
  have w: "width ?m' = width m" and h: "height ?m' = height m" by simp_all
  have walls: "isWall ?m' = isWall m" by (simp add: isWall_def fun_eq_iff)
  have bc: "borderCells ?m' = borderCells m" using w h walls by (rule borderCells_cong)
  have "calculateDistances ?m' = calculateDistances m"
    using w h walls by (rule calculateDistances_cong)
  then have po: "pair_outer ?m' bc i st = pair_outer m bc i st" for bc i st
    by (rule pair_outer_cong)
  show ?thesis
    by (simp add: setStartAndExit_def Let_def bc po split: prod.splits)
qed

lemma generate_algorithm:
  "generate create seed (m\<lparr>algorithm := a\<rparr>) =
     (setStartAndExit
        (fold (\<lambda>(x, y, v) m'. setWall m' (x, y) (v = 1))
           (create (select_generator a (width m) (height m)) seed)
           (fold (\<lambda>c m'. setWall m' c True) (grid_cells m) (m\<lparr>maze := Map.empty\<rparr>))))
     \<lparr>algorithm := a\<rparr>"
proof -
  have g: "grid_cells (m\<lparr>algorithm := a, maze := Map.empty\<rparr>) = grid_cells m"
    by (simp add: grid_cells_def)
  have u: "m\<lparr>algorithm := a, maze := Map.empty\<rparr> = (m\<lparr>maze := Map.empty\<rparr>)\<lparr>algorithm := a\<rparr>"
    by simp
  show ?thesis
    unfolding generate_def Let_def g
    unfolding u fold_setWall_algorithm_update
    by (simp add: fold_callback_algorithm_update setStartAndExit_algorithm_update
          fold_setWall_fields)
qed

text \<open>
  Claim C5. For an algorithm key that is none of \<open>eller\<close>, \<open>icey\<close> and
  \<open>divided\<close>, \<open>generate\<close> instantiates the generator of the key \<open>divided\<close>
  with the same arguments, and the maze it returns is the one it returns for the key
  \<open>divided\<close>, the stored key apart. The function has no failing branch.
\<close>

theorem generate_unknown_algorithm:
  assumes "alg \<noteq> ''eller''" and "alg \<noteq> ''icey''" and "alg \<noteq> ''divided''"
  shows "select_generator alg w h = DividedMaze w h \<and>
         select_generator alg w h = select_generator ''divided'' w h \<and>
         generate create seed (m\<lparr>algorithm := alg\<rparr>)
           = (generate create seed (m\<lparr>algorithm := ''divided''\<rparr>))\<lparr>algorithm := alg\<rparr>"
proof -
  have s: "select_generator alg w h = DividedMaze w h" for w h
    using assms by (simp add: select_generator_def)
  have d: "select_generator ''divided'' w h = DividedMaze w h" for w h
    by (simp add: select_generator_def)
  show ?thesis
    by (simp add: generate_algorithm s d)
qed

theorem generate_unknown_algorithm_witness:
  "''prim'' \<noteq> ''eller'' \<and> ''prim'' \<noteq> ''icey'' \<and> ''prim'' \<noteq> ''divided'' \<and>
   select_generator ''prim'' 2 2 = DividedMaze 2 2 \<and>
   generate example_create 7 (example_maze\<lparr>algorithm := ''prim''\<rparr>)
     = (generate example_create 7 (example_maze\<lparr>algorithm := ''divided''\<rparr>))\<lparr>algorithm := ''prim''\<rparr>"
proof -
  have a: "''prim'' \<noteq> ''eller''" and b: "''prim'' \<noteq> ''icey''" and c: "''prim'' \<noteq> ''divided''"
    by simp_all
  from generate_unknown_algorithm [OF a b c, of 2 2 example_create 7 example_maze] a b c
  show ?thesis by blast
qed

section \<open>Which cell of the pair is the start\<close>

text \<open>
  Claim C7. When at least two border cells exist, the start and the exit are the two
  cells of the pair that the search returns, and the coordinate sum of the start is at
  most that of the exit.
\<close>

theorem start_has_smaller_sum:
  assumes "2 \<le> length (borderCells m)"
  shows "\<exists>s e. startPos (setStartAndExit m) = Some s \<and> exitPos (setStartAndExit m) = Some e \<and>
           fst s + snd s \<le> fst e + snd e \<and>
           (case pair_outer m (borderCells m) 0 (0, borderCells m ! 0, borderCells m ! 1) of
              (maxPathDistance, bestStart, bestExit) \<Rightarrow>
                (s = bestStart \<and> e = bestExit) \<or> (s = bestExit \<and> e = bestStart))"
  using assms by (auto simp: setStartAndExit_def Let_def split: prod.splits)

theorem start_has_smaller_sum_witness:
  "2 \<le> length (borderCells example_maze) \<and>
   (\<exists>s e. startPos (setStartAndExit example_maze) = Some s \<and>
           exitPos (setStartAndExit example_maze) = Some e \<and>
           fst s + snd s \<le> fst e + snd e)"
proof -
  have h: "2 \<le> length (borderCells example_maze)" by code_simp
  from start_has_smaller_sum [OF h] h show ?thesis by blast
qed

section \<open>Correctness of the breadth-first search\<close>

lemma fold_visit_distances:
  "fst (fold (visit d) ns (distances, queue)) c
     = (if distances c = None \<and> c \<in> set ns then Some (d + 1) else distances c)"
proof (induction ns arbitrary: distances queue)
  case Nil
  show ?case by simp
next
  case (Cons n ns)
  show ?case
  proof (cases "distances n")
    case None
    then have "visit d n (distances, queue) = (distances(n \<mapsto> d + 1), queue @ [(n, d + 1)])"
      by (simp add: visit_def)
    then show ?thesis using None by (simp add: Cons.IH)
  next
    case (Some a)
    then have "visit d n (distances, queue) = (distances, queue)"
      by (simp add: visit_def)
    then show ?thesis using Some Cons.IH [of distances queue] by (cases "c = n") simp_all
  qed
qed

lemma fold_visit_queue:
  "\<exists>new. snd (fold (visit d) ns (distances, queue)) = queue @ map (\<lambda>n. (n, d + 1)) new \<and>
         set new = {n \<in> set ns. distances n = None}"
proof (induction ns arbitrary: distances queue)
  case Nil
  show ?case by simp
next
  case (Cons n ns)
  show ?case
  proof (cases "distances n")
    case None
    then have v: "visit d n (distances, queue) = (distances(n \<mapsto> d + 1), queue @ [(n, d + 1)])"
      by (simp add: visit_def)
    from Cons.IH [of "distances(n \<mapsto> d + 1)" "queue @ [(n, d + 1)]"]
    obtain new where
      q: "snd (fold (visit d) ns (distances(n \<mapsto> d + 1), queue @ [(n, d + 1)]))
            = (queue @ [(n, d + 1)]) @ map (\<lambda>n. (n, d + 1)) new"
      and s: "set new = {x \<in> set ns. (distances(n \<mapsto> d + 1)) x = None}"
      by blast
    have "snd (fold (visit d) (n # ns) (distances, queue)) = queue @ map (\<lambda>n. (n, d + 1)) (n # new)"
      using q v by simp
    moreover have "x \<in> set (n # new) \<longleftrightarrow> x \<in> set (n # ns) \<and> distances x = None" for x
      using None by (cases "x = n") (simp_all add: s)
    then have "set (n # new) = {x \<in> set (n # ns). distances x = None}" by blast
    ultimately show ?thesis by blast
  next
    case (Some a)
    then have v: "visit d n (distances, queue) = (distances, queue)"
      by (simp add: visit_def)
    from Cons.IH [of distances queue]
    obtain new where
      q: "snd (fold (visit d) ns (distances, queue)) = queue @ map (\<lambda>n. (n, d + 1)) new"
      and s: "set new = {x \<in> set ns. distances x = None}"
      by blast
    have "snd (fold (visit d) (n # ns) (distances, queue)) = queue @ map (\<lambda>n. (n, d + 1)) new"
      using q v by simp
    moreover have "x \<in> set new \<longleftrightarrow> x \<in> set (n # ns) \<and> distances x = None" for x
      using Some by (cases "x = n") (simp_all add: s)
    then have "set new = {x \<in> set (n # ns). distances x = None}" by blast
    ultimately show ?thesis by blast
  qed
qed

lemma sorted_map_const: "sorted (map (\<lambda>n. k :: nat) xs)"
  by (induction xs) simp_all

lemma bfs_inv_step:
  assumes inv: "bfs_inv m s distances ((c, d) # queue)"
    and f: "fold (visit d) (getPassageNeighbors m c) (distances, queue) = (distances', queue')"
  shows "bfs_inv m s distances' queue'"
proof -
  let ?ns = "getPassageNeighbors m c"
  from inv have i1: "distances s = Some 0"
    and i2: "\<And>c' d'. (c', d') \<in> set ((c, d) # queue) \<Longrightarrow> distances c' = Some d'"
    and i3: "sorted (map snd ((c, d) # queue))"
    and i4: "\<And>x dx. distances x = Some dx \<Longrightarrow> walk m s dx x"
    and i5: "\<And>x dx c' d'. distances x = Some dx \<Longrightarrow> (c', d') \<in> set ((c, d) # queue) \<Longrightarrow> dx \<le> d' + 1"
    and i6: "\<And>x dx n. distances x = Some dx \<Longrightarrow> x \<notin> fst ` set ((c, d) # queue) \<Longrightarrow>
               n \<in> set (getPassageNeighbors m x) \<Longrightarrow> \<exists>d'. distances n = Some d' \<and> d' \<le> dx + 1"
    unfolding bfs_inv_def by blast+
  have dist': "distances' x = (if distances x = None \<and> x \<in> set ?ns then Some (d + 1) else distances x)" for x
    using fold_visit_distances [of d ?ns distances queue x] f by simp
  from fold_visit_queue [of d ?ns distances queue] f obtain new where
    q': "queue' = queue @ map (\<lambda>n. (n, d + 1)) new"
    and new: "set new = {n \<in> set ?ns. distances n = None}"
    by auto
  have dc: "distances c = Some d" by (rule i2) simp
  have old: "distances' x = Some dx" if "distances x = Some dx" for x dx
    using that by (simp add: dist')
  have bound: "dx \<le> d + 1" if "distances' x = Some dx" for x dx
  proof (cases "distances x = None \<and> x \<in> set ?ns")
    case True
    with that show ?thesis by (simp add: dist')
  next
    case False
    with that have "distances x = Some dx" by (simp add: dist')
    from i5 [OF this, of c d] show ?thesis by simp
  qed
  have in_q': "(c', d') \<in> set queue' \<longleftrightarrow> (c', d') \<in> set queue \<or> (c' \<in> set new \<and> d' = d + 1)" for c' d'
    by (auto simp: q')
  have j1: "distances' s = Some 0" using i1 by (rule old)
  have j2: "distances' c' = Some d'" if "(c', d') \<in> set queue'" for c' d'
  proof (cases "(c', d') \<in> set queue")
    case True
    then have "distances c' = Some d'" by (intro i2) simp
    then show ?thesis by (rule old)
  next
    case False
    with that have "c' \<in> set new" "d' = d + 1" by (simp_all add: in_q')
    then show ?thesis using new by (simp add: dist')
  qed
  have ge: "d \<le> d'" if "(c', d') \<in> set queue" for c' d'
  proof -
    from i3 have "\<forall>x \<in> set (map snd queue). d \<le> x" by simp
    moreover from that have "snd (c', d') \<in> snd ` set queue" by (rule imageI)
    ultimately show ?thesis by auto
  qed
  have le: "d' \<le> d + 1" if "(c', d') \<in> set queue" for c' d'
  proof -
    from that have "distances c' = Some d'" by (intro i2) simp
    from i5 [OF this, of c d] show ?thesis by simp
  qed
  have j3: "sorted (map snd queue')"
  proof -
    have a: "sorted (map snd queue)" using i3 by simp
    have b: "sorted (map (\<lambda>n. d + 1) new)" by (rule sorted_map_const)
    have c: "x \<le> y" if "x \<in> set (map snd queue)" "y \<in> set (map (\<lambda>n. d + 1) new)" for x y
    proof -
      from that(1) obtain p where p: "p \<in> set queue" "x = snd p" by auto
      then have "(fst p, x) \<in> set queue" by simp
      then have "x \<le> d + 1" by (rule le)
      moreover from that(2) have "y = d + 1" by auto
      ultimately show ?thesis by simp
    qed
    have e: "map snd queue' = map snd queue @ map (\<lambda>n. d + 1) new"
      by (simp add: q' comp_def)
    show ?thesis unfolding e sorted_append using a b c by blast
  qed
  have j4: "walk m s dx x" if "distances' x = Some dx" for x dx
  proof (cases "distances x = None \<and> x \<in> set ?ns")
    case True
    with that have dx: "dx = Suc d" by (simp add: dist')
    from True have "adjacent c x" "passage m x" by (simp_all add: getPassageNeighbors_iff)
    with i4 [OF dc] show ?thesis unfolding dx by (rule walk_step)
  next
    case False
    with that have "distances x = Some dx" by (simp add: dist')
    then show ?thesis by (rule i4)
  qed
  have j5: "dx \<le> d' + 1" if "distances' x = Some dx" "(c', d') \<in> set queue'" for x dx c' d'
  proof -
    have "dx \<le> d + 1" using that(1) by (rule bound)
    moreover have "d \<le> d'"
    proof (cases "(c', d') \<in> set queue")
      case True
      then show ?thesis by (rule ge)
    next
      case False
      with that(2) show ?thesis by (simp add: in_q')
    qed
    ultimately show ?thesis by simp
  qed
  have j6: "\<exists>d'. distances' n = Some d' \<and> d' \<le> dx + 1"
    if x: "distances' x = Some dx" and nq: "x \<notin> fst ` set queue'"
      and n: "n \<in> set (getPassageNeighbors m x)" for x dx n
  proof -
    have notnew: "x \<notin> set new" using nq by (force simp: q')
    have xq: "x \<notin> fst ` set queue" using nq by (auto simp: q')
    have dx: "distances x = Some dx"
    proof (cases "distances x")
      case None
      with x have "x \<in> set ?ns" by (simp add: dist' split: if_splits)
      with None new notnew show ?thesis by simp
    next
      case (Some a)
      with x show ?thesis by (simp add: dist')
    qed
    show ?thesis
    proof (cases "x = c")
      case True
      with dx dc have "dx = d" by simp
      obtain d' where d': "distances' n = Some d'"
        using n True by (cases "distances n") (auto simp: dist')
      from bound [OF d'] d' \<open>dx = d\<close> show ?thesis by simp
    next
      case False
      with xq have "x \<notin> fst ` set ((c, d) # queue)" by simp
      from i6 [OF dx this n] obtain d' where "distances n = Some d'" "d' \<le> dx + 1" by blast
      then show ?thesis using old by blast
    qed
  qed
  show ?thesis
    unfolding bfs_inv_def
  proof (intro conjI allI impI)
    show "distances' s = Some 0" by (rule j1)
    show "distances' c' = Some d'" if "(c', d') \<in> set queue'" for c' d'
      using that by (rule j2)
    show "sorted (map snd queue')" by (rule j3)
    show "walk m s dx x" if "distances' x = Some dx" for x dx
      using that by (rule j4)
    show "dx \<le> d' + 1" if "distances' x = Some dx \<and> (c', d') \<in> set queue'" for x dx c' d'
      using that j5 by blast
    show "\<exists>d'. distances' n = Some d' \<and> d' \<le> dx + 1"
      if "distances' x = Some dx \<and> x \<notin> fst ` set queue' \<and> n \<in> set (getPassageNeighbors m x)"
      for x dx n
      using that j6 by blast
  qed
qed

lemma bfs_loop_inv:
  "bfs_inv m s distances queue \<Longrightarrow> bfs_inv m s (bfs_loop m distances queue) []"
proof (induction m distances queue rule: bfs_loop.induct)
  case (1 m distances)
  then show ?case by (simp add: bfs_loop.simps)
next
  case (2 m distances c d queue)
  obtain distances' queue' where
    f: "fold (visit d) (getPassageNeighbors m c) (distances, queue) = (distances', queue')"
    by (cases "fold (visit d) (getPassageNeighbors m c) (distances, queue)")
  have "bfs_inv m s distances' queue'" using "2.prems" f by (rule bfs_inv_step)
  from "2.IH" [OF f [symmetric] this] show ?case using f by (simp add: bfs_loop.simps)
qed

lemma bfs_inv_init: "bfs_inv m s (Map.empty(s \<mapsto> 0)) [(s, 0)]"
  unfolding bfs_inv_def
proof (intro conjI allI impI)
  show "(Map.empty(s \<mapsto> 0)) s = Some 0" by simp
  show "(Map.empty(s \<mapsto> 0)) c = Some d" if "(c, d) \<in> set [(s, 0)]" for c and d :: nat
    using that by simp
  show "sorted (map snd [(s, 0 :: nat)])" by simp
  show "walk m s d c" if "(Map.empty(s \<mapsto> 0)) c = Some d" for c d
    using that walk_start [of m s] by (simp split: if_splits)
  show "d \<le> d' + 1" if "(Map.empty(s \<mapsto> 0)) c = Some d \<and> (c', d') \<in> set [(s, 0)]" for c and d :: nat and c' and d' :: nat
    using that by (simp split: if_splits)
  show "\<exists>d'. (Map.empty(s \<mapsto> 0)) n = Some d' \<and> d' \<le> d + 1"
    if "(Map.empty(s \<mapsto> 0)) c = Some d \<and> c \<notin> fst ` set [(s, 0 :: nat)] \<and> n \<in> set (getPassageNeighbors m c)"
    for c d n
    using that by (simp split: if_splits)
qed

lemma calculateDistances_inv: "bfs_inv m s (calculateDistances m s) []"
  unfolding calculateDistances_def by (rule bfs_loop_inv) (rule bfs_inv_init)

lemma calculateDistances_sound: "calculateDistances m s c = Some d \<Longrightarrow> walk m s d c"
  using calculateDistances_inv [of m s] unfolding bfs_inv_def by blast

lemma calculateDistances_closed:
  assumes "calculateDistances m s c = Some d" and "n \<in> set (getPassageNeighbors m c)"
  shows "\<exists>d'. calculateDistances m s n = Some d' \<and> d' \<le> d + 1"
proof -
  have "\<forall>c d n. calculateDistances m s c = Some d \<and> c \<notin> fst ` set ([] :: (cell \<times> nat) list) \<and>
          n \<in> set (getPassageNeighbors m c)
        \<longrightarrow> (\<exists>d'. calculateDistances m s n = Some d' \<and> d' \<le> d + 1)"
    using calculateDistances_inv [of m s] unfolding bfs_inv_def by (elim conjE)
  then have "calculateDistances m s c = Some d \<and> c \<notin> fst ` set ([] :: (cell \<times> nat) list) \<and>
          n \<in> set (getPassageNeighbors m c)
        \<longrightarrow> (\<exists>d'. calculateDistances m s n = Some d' \<and> d' \<le> d + 1)"
    by (elim allE)
  with assms show ?thesis by simp
qed

lemma calculateDistances_least:
  "walk m s n c \<Longrightarrow> \<exists>d. calculateDistances m s c = Some d \<and> d \<le> n"
proof (induction rule: walk.induct)
  case walk_start
  show ?case using calculateDistances_inv [of m s] unfolding bfs_inv_def by simp
next
  case (walk_step n c c')
  then obtain d where d: "calculateDistances m s c = Some d" "d \<le> n" by blast
  from walk_step have "c' \<in> set (getPassageNeighbors m c)"
    by (simp add: getPassageNeighbors_iff)
  with d(1) calculateDistances_closed
  obtain d' where "calculateDistances m s c' = Some d'" "d' \<le> d + 1"
    by blast
  with d(2) show ?case by auto
qed

text \<open>
  Claim C3. For every maze and every source cell, the keys of the map that
  \<open>calculateDistances\<close> returns are exactly the cells reachable from the source by a
  chain of steps, each to an orthogonally adjacent passage cell inside the bounds (the
  source included, by the empty chain), and the value of a key is the length of a
  shortest such chain. This holds for every source, so for every passage cell.
\<close>

theorem calculateDistances_shortest:
  "dom (calculateDistances m s) = {c. \<exists>n. walk m s n c} \<and>
   (\<forall>c d. calculateDistances m s c = Some d \<longrightarrow>
      walk m s d c \<and> (\<forall>n. walk m s n c \<longrightarrow> d \<le> n))"
proof -
  have "c \<in> dom (calculateDistances m s) \<longleftrightarrow> (\<exists>n. walk m s n c)" for c
  proof
    assume "c \<in> dom (calculateDistances m s)"
    then obtain d where "calculateDistances m s c = Some d" by blast
    then have "walk m s d c" by (rule calculateDistances_sound)
    then show "\<exists>n. walk m s n c" ..
  next
    assume "\<exists>n. walk m s n c"
    then obtain n where "walk m s n c" ..
    from calculateDistances_least [OF this] show "c \<in> dom (calculateDistances m s)" by blast
  qed
  then have "dom (calculateDistances m s) = {c. \<exists>n. walk m s n c}" by blast
  moreover have "walk m s d c \<and> (\<forall>n. walk m s n c \<longrightarrow> d \<le> n)"
    if "calculateDistances m s c = Some d" for c d
  proof -
    have "d \<le> n" if w: "walk m s n c" for n
      using calculateDistances_least [OF w] \<open>calculateDistances m s c = Some d\<close> by simp
    with calculateDistances_sound [OF that] show ?thesis by blast
  qed
  ultimately show ?thesis by blast
qed

theorem calculateDistances_shortest_witness:
  "calculateDistances example_maze (0, 0) (1, 0) = Some 1 \<and>
   walk example_maze (0, 0) 1 (1, 0) \<and>
   \<not> walk example_maze (0, 0) 0 (1, 0) \<and>
   dom (calculateDistances example_maze (0, 0)) = {c. \<exists>n. walk example_maze (0, 0) n c}"
proof -
  have "calculateDistances example_maze (0, 0) (1, 0) = Some 1" by code_simp
  with calculateDistances_shortest [of example_maze "(0, 0)"] show ?thesis by fastforce
qed

section \<open>The search for the most distant pair\<close>

lemma before_next:
  "i < j \<Longrightarrow> j < n \<Longrightarrow> before n (i, Suc j) p' \<longleftrightarrow> before n (i, j) p' \<or> p' = (i, j)"
  by (cases p') (auto simp: before_def)

lemma before_row_end:
  "n \<le> j \<Longrightarrow> before n (i, j) p' \<longleftrightarrow> before n (Suc i, Suc (Suc i)) p'"
  by (cases p') (auto simp: before_def)

lemma before_all:
  "n \<le> i \<Longrightarrow> before n (i, j) p' \<longleftrightarrow> fst p' < snd p' \<and> snd p' < n"
  by (cases p') (auto simp: before_def)

lemma pair_inv_keep:
  assumes inv: "pair_inv m bc (i, j) st" and ij: "i < j" "j < length bc"
    and d: "\<And>d. calculateDistances m (bc ! i) (bc ! j) = Some d \<Longrightarrow> d \<le> fst st"
  shows "pair_inv m bc (i, Suc j) st"
proof -
  obtain mx bs be where st: "st = (mx, bs, be)" by (cases st)
  note b = before_next [OF ij]
  from inv have a: "\<And>p' d. before (length bc) (i, j) p' \<Longrightarrow>
      calculateDistances m (bc ! fst p') (bc ! snd p') = Some d \<Longrightarrow> d \<le> mx"
    and c: "(mx = 0 \<and> bs = bc ! 0 \<and> be = bc ! 1) \<or>
         (\<exists>q. before (length bc) (i, j) q \<and> bs = bc ! fst q \<and> be = bc ! snd q \<and>
              calculateDistances m (bc ! fst q) (bc ! snd q) = Some mx \<and>
              (\<forall>p' d. before (length bc) q p' \<and>
                 calculateDistances m (bc ! fst p') (bc ! snd p') = Some d \<longrightarrow> d < mx))"
    unfolding pair_inv_def st by auto
  have a': "d \<le> mx" if "before (length bc) (i, Suc j) p'"
      "calculateDistances m (bc ! fst p') (bc ! snd p') = Some d" for p' d
  proof (cases "p' = (i, j)")
    case True
    with that(2) d show ?thesis by (simp add: st)
  next
    case False
    with that(1) have "before (length bc) (i, j) p'" by (simp add: b)
    then show ?thesis using that(2) by (rule a)
  qed
  have c': "(mx = 0 \<and> bs = bc ! 0 \<and> be = bc ! 1) \<or>
         (\<exists>q. before (length bc) (i, Suc j) q \<and> bs = bc ! fst q \<and> be = bc ! snd q \<and>
              calculateDistances m (bc ! fst q) (bc ! snd q) = Some mx \<and>
              (\<forall>p' d. before (length bc) q p' \<and>
                 calculateDistances m (bc ! fst p') (bc ! snd p') = Some d \<longrightarrow> d < mx))"
    using c b by blast
  show ?thesis unfolding pair_inv_def st prod.case using a' c' by blast
qed

lemma pair_inv_better:
  assumes inv: "pair_inv m bc (i, j) st" and ij: "i < j" "j < length bc"
    and d: "calculateDistances m (bc ! i) (bc ! j) = Some d" "fst st < d"
  shows "pair_inv m bc (i, Suc j) (d, bc ! i, bc ! j)"
proof -
  obtain mx bs be where st: "st = (mx, bs, be)" by (cases st)
  note b = before_next [OF ij]
  from inv have a: "\<And>p' d. before (length bc) (i, j) p' \<Longrightarrow>
      calculateDistances m (bc ! fst p') (bc ! snd p') = Some d \<Longrightarrow> d \<le> mx"
    unfolding pair_inv_def st by auto
  from d(2) have lt: "mx < d" by (simp add: st)
  have a': "d' \<le> d" if "before (length bc) (i, Suc j) p'"
      "calculateDistances m (bc ! fst p') (bc ! snd p') = Some d'" for p' d'
  proof (cases "p' = (i, j)")
    case True
    with that(2) d(1) show ?thesis by simp
  next
    case False
    with that(1) have "before (length bc) (i, j) p'" by (simp add: b)
    from a [OF this that(2)] lt show ?thesis by simp
  qed
  have s: "d' < d" if "before (length bc) (i, j) p'"
      "calculateDistances m (bc ! fst p') (bc ! snd p') = Some d'" for p' d'
    using a [OF that] lt by simp
  have "before (length bc) (i, Suc j) (i, j)" by (simp add: b)
  with d(1) s have c': "\<exists>q. before (length bc) (i, Suc j) q \<and> bc ! i = bc ! fst q \<and> bc ! j = bc ! snd q \<and>
              calculateDistances m (bc ! fst q) (bc ! snd q) = Some d \<and>
              (\<forall>p' d'. before (length bc) q p' \<and>
                 calculateDistances m (bc ! fst p') (bc ! snd p') = Some d' \<longrightarrow> d' < d)"
    by (intro exI [of _ "(i, j)"]) auto
  show ?thesis unfolding pair_inv_def prod.case using a' c' by blast
qed

lemma pair_inner_inv:
  "pair_inv m bc (i, j) st \<Longrightarrow> i < j \<Longrightarrow>
   pair_inv m bc (Suc i, Suc (Suc i)) (pair_inner bc (calculateDistances m (bc ! i)) i j st)"
proof (induction bc "calculateDistances m (bc ! i)" i j st rule: pair_inner.induct)
  case (1 bc i j st)
  show ?case
  proof (cases "j < length bc")
    case False
    then have "pair_inner bc (calculateDistances m (bc ! i)) i j st = st"
      by (simp add: pair_inner.simps)
    moreover have "pair_inv m bc (Suc i, Suc (Suc i)) st"
      using "1.prems"(1) False unfolding pair_inv_def
      by (simp add: before_row_end [of "length bc" j i])
    ultimately show ?thesis by simp
  next
    case True
    obtain mx bs be where st: "st = (mx, bs, be)" by (cases st)
    let ?st' = "case calculateDistances m (bc ! i) (bc ! j) of None \<Rightarrow> st
       | Some distance \<Rightarrow> if distance > mx then (distance, bc ! i, bc ! j) else st"
    have eq: "pair_inner bc (calculateDistances m (bc ! i)) i j st
        = pair_inner bc (calculateDistances m (bc ! i)) i (j + 1) ?st'"
      using True by (subst pair_inner.simps) (simp add: st)
    have inv': "pair_inv m bc (i, Suc j) ?st'"
    proof (cases "calculateDistances m (bc ! i) (bc ! j)")
      case None
      then show ?thesis using pair_inv_keep [OF "1.prems"(1,2) True] by simp
    next
      case (Some d)
      show ?thesis
      proof (cases "mx < d")
        case True
        with Some pair_inv_better [OF "1.prems"(1,2) \<open>j < length bc\<close> Some] show ?thesis
          by (simp add: st)
      next
        case False
        with Some pair_inv_keep [OF "1.prems"(1,2) \<open>j < length bc\<close>] show ?thesis
          by (simp add: st)
      qed
    qed
    have "pair_inv m bc (Suc i, Suc (Suc i))
            (pair_inner bc (calculateDistances m (bc ! i)) i (j + 1) ?st')"
      using "1.hyps" [OF True] inv' "1.prems"(2) by (simp add: st)
    then show ?thesis by (simp only: eq)
  qed
qed

lemma pair_outer_inv:
  "pair_inv m bc (i, Suc i) st \<Longrightarrow> pair_inv m bc (length bc, 0) (pair_outer m bc i st)"
proof (induction m bc i st rule: pair_outer.induct)
  case (1 m bc i st)
  show ?case
  proof (cases "i < length bc")
    case False
    then have "pair_outer m bc i st = st" by (simp add: pair_outer.simps)
    moreover have "pair_inv m bc (length bc, 0) st"
      using "1.prems" False unfolding pair_inv_def
      by (simp add: before_all)
    ultimately show ?thesis by simp
  next
    case True
    have eq: "pair_outer m bc i st
        = pair_outer m bc (i + 1) (pair_inner bc (calculateDistances m (bc ! i)) i (i + 1) st)"
      using True by (subst pair_outer.simps) simp
    have "pair_inv m bc (Suc i, Suc (Suc i)) (pair_inner bc (calculateDistances m (bc ! i)) i (Suc i) st)"
      using "1.prems" by (intro pair_inner_inv) simp_all
    with "1.IH" [OF True] show ?thesis by (simp add: eq)
  qed
qed

lemma pair_inv_init: "pair_inv m bc (0, Suc 0) (0, bc ! 0, bc ! 1)"
  unfolding pair_inv_def by (simp add: before_def)

lemma pair_outer_result:
  "pair_inv m bc (length bc, 0) (pair_outer m bc 0 (0, bc ! 0, bc ! 1))"
  by (rule pair_outer_inv) (rule pair_inv_init)

section \<open>The endpoints chosen by setStartAndExit\<close>

lemma distinct_borderCells: "distinct (borderCells m)"
  by (simp add: borderCells_def distinct_grid_cells)

lemma borderCells_nth:
  assumes "i < length (borderCells m)"
  shows "passage m (borderCells m ! i) \<and> nearBorder m (borderCells m ! i)"
proof -
  from assms have "borderCells m ! i \<in> set (borderCells m)" by (rule nth_mem)
  then show ?thesis by (simp add: borderCells_def set_grid_cells passage_def)
qed

lemma walk_zero: "walk m s 0 c \<Longrightarrow> c = s"
  by (erule walk.cases) simp_all

lemma borderCells_distance_positive:
  assumes "i < j" and "j < length (borderCells m)"
    and "calculateDistances m (borderCells m ! i) (borderCells m ! j) = Some d"
  shows "0 < d"
proof (rule ccontr)
  assume "\<not> 0 < d"
  with assms(3) have "walk m (borderCells m ! i) 0 (borderCells m ! j)"
    using calculateDistances_sound by fastforce
  then have "borderCells m ! j = borderCells m ! i" by (rule walk_zero)
  with assms(1,2) distinct_borderCells [of m] show False
    by (simp add: nth_eq_iff_index_eq)
qed

text \<open>The pair that the search returns when there are at least two border cells.\<close>

lemma pair_outer_best:
  assumes n: "2 \<le> length (borderCells m)"
    and r: "pair_outer m (borderCells m) 0 (0, borderCells m ! 0, borderCells m ! 1) = (mx, bs, be)"
  shows "\<exists>i j. i < j \<and> j < length (borderCells m) \<and>
           bs = borderCells m ! i \<and> be = borderCells m ! j \<and>
           (\<forall>i' j' d'. i' < j' \<and> j' < length (borderCells m) \<and>
              calculateDistances m (borderCells m ! i') (borderCells m ! j') = Some d' \<longrightarrow>
              (\<exists>d. calculateDistances m (borderCells m ! i) (borderCells m ! j) = Some d \<and>
                   d' \<le> d \<and> (d' = d \<longrightarrow> i < i' \<or> (i = i' \<and> j \<le> j'))))"
proof -
  let ?bc = "borderCells m"
  let ?n = "length ?bc"
  let ?D = "\<lambda>i j. calculateDistances m (?bc ! i) (?bc ! j)"
  have all: "before ?n (?n, 0) (i', j') \<longleftrightarrow> i' < j' \<and> j' < ?n" for i' j'
    by (simp add: before_all)
  from pair_outer_result [of m ?bc] r have inv: "pair_inv m ?bc (?n, 0) (mx, bs, be)"
    by simp
  from inv have a0: "\<forall>p' d. before ?n (?n, 0) p' \<and> ?D (fst p') (snd p') = Some d \<longrightarrow> d \<le> mx"
    unfolding pair_inv_def prod.case by (elim conjE)
  from inv have c: "(mx = 0 \<and> bs = ?bc ! 0 \<and> be = ?bc ! 1) \<or>
         (\<exists>q. before ?n (?n, 0) q \<and> bs = ?bc ! fst q \<and> be = ?bc ! snd q \<and>
              ?D (fst q) (snd q) = Some mx \<and>
              (\<forall>p' d. before ?n q p' \<and> ?D (fst p') (snd p') = Some d \<longrightarrow> d < mx))"
    unfolding pair_inv_def prod.case by (elim conjE)
  have a: "d \<le> mx" if "i' < j'" "j' < ?n" "?D i' j' = Some d" for i' j' d
  proof -
    from a0 have "before ?n (?n, 0) (i', j') \<and> ?D (fst (i', j')) (snd (i', j')) = Some d \<longrightarrow> d \<le> mx"
      by (elim allE)
    with that show ?thesis by (simp add: all)
  qed
  from c show ?thesis
  proof
    assume z: "mx = 0 \<and> bs = ?bc ! 0 \<and> be = ?bc ! 1"
    have none: "?D i' j' \<noteq> Some d'" if "i' < j'" "j' < ?n" for i' j' d'
    proof
      assume s: "?D i' j' = Some d'"
      from a [OF that s] z have "d' = 0" by simp
      with borderCells_distance_positive [OF that s] show False by simp
    qed
    have "(0::nat) < 1 \<and> 1 < ?n \<and> bs = ?bc ! 0 \<and> be = ?bc ! 1" using n z by simp
    with none show ?thesis by blast
  next
    assume "\<exists>q. before ?n (?n, 0) q \<and> bs = ?bc ! fst q \<and> be = ?bc ! snd q \<and>
              ?D (fst q) (snd q) = Some mx \<and>
              (\<forall>p' d. before ?n q p' \<and> ?D (fst p') (snd p') = Some d \<longrightarrow> d < mx)"
    then obtain q where q0: "before ?n (?n, 0) q" "bs = ?bc ! fst q" "be = ?bc ! snd q"
      "?D (fst q) (snd q) = Some mx"
      and first0: "\<forall>p' d. before ?n q p' \<and> ?D (fst p') (snd p') = Some d \<longrightarrow> d < mx"
      by (elim exE conjE)
    obtain i j where qi: "q = (i, j)" by (cases q)
    from q0 have q: "before ?n (?n, 0) (i, j)" "bs = ?bc ! i" "be = ?bc ! j" "?D i j = Some mx"
      by (simp_all add: qi)
    have first: "d < mx" if "before ?n (i, j) p'" "?D (fst p') (snd p') = Some d" for p' d
    proof -
      from first0 have "before ?n q p' \<and> ?D (fst p') (snd p') = Some d \<longrightarrow> d < mx"
        by (elim allE)
      with that show ?thesis by (simp add: qi)
    qed
    from q(1) have ij: "i < j" "j < ?n" by (simp_all add: all)
    have "\<exists>d. ?D i j = Some d \<and> d' \<le> d \<and> (d' = d \<longrightarrow> i < i' \<or> (i = i' \<and> j \<le> j'))"
      if p: "i' < j'" "j' < ?n" "?D i' j' = Some d'" for i' j' d'
    proof -
      have le: "d' \<le> mx" using p by (rule a)
      have "i < i' \<or> (i = i' \<and> j \<le> j')" if "d' = mx"
      proof (rule ccontr)
        assume "\<not> (i < i' \<or> (i = i' \<and> j \<le> j'))"
        with p(1,2) have "before ?n (i, j) (i', j')" by (auto simp: before_def)
        from first [OF this] p(3) that show False by simp
      qed
      with q(4) le show ?thesis by blast
    qed
    with ij q(2,3) show ?thesis by blast
  qed
qed

text \<open>
  Claim C4. When at least two border cells exist, the start and the exit are the cells
  at two positions \<open>i < j\<close> of the row-major list of border cells, in either order, and
  for every pair of positions \<open>i' < j'\<close> whose distance is defined, the distance of the
  pair kept is defined and at least as large; when it is equal, \<open>(i, j)\<close> is
  \<open>(i', j')\<close> or comes before it in the enumeration of the two loops.
\<close>

theorem setStartAndExit_most_distant:
  assumes "2 \<le> length (borderCells m)"
  shows "\<exists>i j. i < j \<and> j < length (borderCells m) \<and>
           ((startPos (setStartAndExit m) = Some (borderCells m ! i) \<and>
             exitPos (setStartAndExit m) = Some (borderCells m ! j)) \<or>
            (startPos (setStartAndExit m) = Some (borderCells m ! j) \<and>
             exitPos (setStartAndExit m) = Some (borderCells m ! i))) \<and>
           (\<forall>i' j' d'. i' < j' \<and> j' < length (borderCells m) \<and>
              calculateDistances m (borderCells m ! i') (borderCells m ! j') = Some d' \<longrightarrow>
              (\<exists>d. calculateDistances m (borderCells m ! i) (borderCells m ! j) = Some d \<and>
                   d' \<le> d \<and> (d' = d \<longrightarrow> i < i' \<or> (i = i' \<and> j \<le> j'))))"
proof -
  obtain mx bs be where
    r: "pair_outer m (borderCells m) 0 (0, borderCells m ! 0, borderCells m ! 1) = (mx, bs, be)"
    by (cases "pair_outer m (borderCells m) 0 (0, borderCells m ! 0, borderCells m ! 1)")
  from pair_outer_best [OF assms r] obtain i j where
    ij: "i < j" "j < length (borderCells m)" "bs = borderCells m ! i" "be = borderCells m ! j"
    and best: "\<forall>i' j' d'. i' < j' \<and> j' < length (borderCells m) \<and>
              calculateDistances m (borderCells m ! i') (borderCells m ! j') = Some d' \<longrightarrow>
              (\<exists>d. calculateDistances m (borderCells m ! i) (borderCells m ! j) = Some d \<and>
                   d' \<le> d \<and> (d' = d \<longrightarrow> i < i' \<or> (i = i' \<and> j \<le> j')))"
    by blast
  have "(startPos (setStartAndExit m) = Some bs \<and> exitPos (setStartAndExit m) = Some be) \<or>
        (startPos (setStartAndExit m) = Some be \<and> exitPos (setStartAndExit m) = Some bs)"
    using assms r by (simp add: setStartAndExit_def Let_def)
  with ij best show ?thesis by blast
qed

theorem setStartAndExit_most_distant_witness:
  "2 \<le> length (borderCells ring_maze) \<and>
   calculateDistances ring_maze (borderCells ring_maze ! 0) (borderCells ring_maze ! 7) = Some 4 \<and>
   calculateDistances ring_maze (borderCells ring_maze ! 1) (borderCells ring_maze ! 6) = Some 4 \<and>
   calculateDistances ring_maze (borderCells ring_maze ! 0) (borderCells ring_maze ! 1) = Some 1 \<and>
   startPos (setStartAndExit ring_maze) = Some (borderCells ring_maze ! 0) \<and>
   exitPos (setStartAndExit ring_maze) = Some (borderCells ring_maze ! 7) \<and>
   (\<exists>i j. i = 0 \<and> j = 7 \<and> i < j \<and> j < length (borderCells ring_maze) \<and>
      ((startPos (setStartAndExit ring_maze) = Some (borderCells ring_maze ! i) \<and>
        exitPos (setStartAndExit ring_maze) = Some (borderCells ring_maze ! j)) \<or>
       (startPos (setStartAndExit ring_maze) = Some (borderCells ring_maze ! j) \<and>
        exitPos (setStartAndExit ring_maze) = Some (borderCells ring_maze ! i))) \<and>
      (\<forall>i' j' d'. i' < j' \<and> j' < length (borderCells ring_maze) \<and>
         calculateDistances ring_maze (borderCells ring_maze ! i') (borderCells ring_maze ! j') = Some d' \<longrightarrow>
         (\<exists>d. calculateDistances ring_maze (borderCells ring_maze ! i) (borderCells ring_maze ! j) = Some d \<and>
              d' \<le> d \<and> (d' = d \<longrightarrow> i < i' \<or> (i = i' \<and> j \<le> j')))))"
proof -
  let ?bc = "borderCells ring_maze"
  have h: "2 \<le> length ?bc" by code_simp
  have len: "length ?bc = 8" by code_simp
  have d07: "calculateDistances ring_maze (?bc ! 0) (?bc ! 7) = Some 4" by code_simp
  have d16: "calculateDistances ring_maze (?bc ! 1) (?bc ! 6) = Some 4" by code_simp
  have d01: "calculateDistances ring_maze (?bc ! 0) (?bc ! 1) = Some 1" by code_simp
  have s: "startPos (setStartAndExit ring_maze) = Some (?bc ! 0)" by code_simp
  have e: "exitPos (setStartAndExit ring_maze) = Some (?bc ! 7)" by code_simp
  from setStartAndExit_most_distant [OF h] obtain i j where
    ij: "i < j" "j < length ?bc"
    and se: "(startPos (setStartAndExit ring_maze) = Some (?bc ! i) \<and>
              exitPos (setStartAndExit ring_maze) = Some (?bc ! j)) \<or>
             (startPos (setStartAndExit ring_maze) = Some (?bc ! j) \<and>
              exitPos (setStartAndExit ring_maze) = Some (?bc ! i))"
    and best: "\<forall>i' j' d'. i' < j' \<and> j' < length ?bc \<and>
         calculateDistances ring_maze (?bc ! i') (?bc ! j') = Some d' \<longrightarrow>
         (\<exists>d. calculateDistances ring_maze (?bc ! i) (?bc ! j) = Some d \<and>
              d' \<le> d \<and> (d' = d \<longrightarrow> i < i' \<or> (i = i' \<and> j \<le> j')))"
    by blast
  have idx: "?bc ! a = ?bc ! b \<longleftrightarrow> a = b" if "a < 8" "b < 8" for a b
    using that distinct_borderCells [of ring_maze] by (simp add: nth_eq_iff_index_eq len)
  from ij len have i8: "i < 8" and j8: "j < 8" by simp_all
  have "i = 0 \<and> j = 7"
  proof (rule disjE [OF se])
    assume "startPos (setStartAndExit ring_maze) = Some (?bc ! i) \<and>
            exitPos (setStartAndExit ring_maze) = Some (?bc ! j)"
    with s e have "?bc ! i = ?bc ! 0" "?bc ! j = ?bc ! 7" by simp_all
    with i8 j8 show ?thesis by (simp add: idx)
  next
    assume "startPos (setStartAndExit ring_maze) = Some (?bc ! j) \<and>
            exitPos (setStartAndExit ring_maze) = Some (?bc ! i)"
    with s e have "?bc ! j = ?bc ! 0" by simp
    with j8 have "j = 0" by (simp add: idx)
    with ij(1) show ?thesis by simp
  qed
  with ij se best h d07 d16 d01 s e show ?thesis by blast
qed

text \<open>
  Claim C1, as the code has it. The start and the exit are always assigned and satisfy
  the test of being within two cells of an edge. When at least two border cells exist
  they are two distinct passage cells of the grid. Otherwise they are the fixed cells
  \<open>(1, 1)\<close> and \<open>(width - 2, height - 2)\<close>, of which nothing more is promised.
\<close>

theorem setStartAndExit_endpoints:
  "\<exists>s e. startPos (setStartAndExit m) = Some s \<and> exitPos (setStartAndExit m) = Some e \<and>
     nearBorder m s \<and> nearBorder m e \<and>
     (if 2 \<le> length (borderCells m)
      then s \<noteq> e \<and> isInBounds m s \<and> isInBounds m e \<and>
           \<not> isWall (setStartAndExit m) s \<and> \<not> isWall (setStartAndExit m) e
      else s = (1, 1) \<and> e = (width m - 2, height m - 2))"
proof (cases "2 \<le> length (borderCells m)")
  case False
  then show ?thesis
    by (simp add: setStartAndExit_def Let_def nearBorder_def)
next
  case True
  obtain mx bs be where
    r: "pair_outer m (borderCells m) 0 (0, borderCells m ! 0, borderCells m ! 1) = (mx, bs, be)"
    by (cases "pair_outer m (borderCells m) 0 (0, borderCells m ! 0, borderCells m ! 1)")
  from pair_outer_best [OF True r] obtain i j where
    ij: "i < j" "j < length (borderCells m)" "bs = borderCells m ! i" "be = borderCells m ! j"
    by blast
  from ij(1,2) have i: "i < length (borderCells m)" by simp
  have ne: "bs \<noteq> be"
    using ij i distinct_borderCells [of m] by (simp add: nth_eq_iff_index_eq)
  have walls: "isWall (setStartAndExit m) = isWall m" by (simp add: isWall_def fun_eq_iff)
  from borderCells_nth [OF i] borderCells_nth [OF ij(2)] ij(3,4)
  have p: "passage m bs" "nearBorder m bs" "passage m be" "nearBorder m be" by simp_all
  have se: "(startPos (setStartAndExit m) = Some bs \<and> exitPos (setStartAndExit m) = Some be) \<or>
        (startPos (setStartAndExit m) = Some be \<and> exitPos (setStartAndExit m) = Some bs)"
    using True r by (simp add: setStartAndExit_def Let_def)
  from se show ?thesis
  proof
    assume "startPos (setStartAndExit m) = Some bs \<and> exitPos (setStartAndExit m) = Some be"
    with True ne p show ?thesis by (simp add: walls passage_def)
  next
    assume "startPos (setStartAndExit m) = Some be \<and> exitPos (setStartAndExit m) = Some bs"
    with True ne p show ?thesis by (auto simp: walls passage_def)
  qed
qed

theorem setStartAndExit_endpoints_witness:
  "2 \<le> length (borderCells example_maze) \<and>
   (\<exists>s e. startPos (setStartAndExit example_maze) = Some s \<and>
          exitPos (setStartAndExit example_maze) = Some e \<and> s \<noteq> e \<and>
          \<not> isWall (setStartAndExit example_maze) s \<and> \<not> isWall (setStartAndExit example_maze) e \<and>
          nearBorder example_maze s \<and> nearBorder example_maze e)"
proof -
  have h: "2 \<le> length (borderCells example_maze)" by code_simp
  from setStartAndExit_endpoints [of example_maze] h show ?thesis by auto
qed

text \<open>
  The claim as stated fails on the maze generated from \<open>divided_3x3\<close>: its only
  passage is the centre, one border cell is found, and the fixed pair is the centre twice.
\<close>

theorem setStartAndExit_endpoints_counterexample:
  "length (borderCells (generate divided_3x3 0 (new_MazeGenerator 3 3 ''divided''))) = 1 \<and>
   \<not> (\<exists>s e. startPos (generate divided_3x3 0 (new_MazeGenerator 3 3 ''divided'')) = Some s \<and>
            exitPos (generate divided_3x3 0 (new_MazeGenerator 3 3 ''divided'')) = Some e \<and>
            s \<noteq> e)"
proof -
  have "length (borderCells (generate divided_3x3 0 (new_MazeGenerator 3 3 ''divided''))) = 1"
    by code_simp
  moreover have "startPos (generate divided_3x3 0 (new_MazeGenerator 3 3 ''divided'')) = Some (1, 1)"
    by code_simp
  moreover have "exitPos (generate divided_3x3 0 (new_MazeGenerator 3 3 ''divided'')) = Some (1, 1)"
    by code_simp
  ultimately show ?thesis by simp
qed

end
